theory Spec2Isabelle
  imports Main
begin

section \<open>JavaScript values and objects\<close>

text \<open>
  The plugin API of \<^verbatim>\<open>app/plugin/grist-plugin-api.ts\<close> moves plain JSON-like data
  between the host and a widget. A value is one of the JavaScript primitives, an array
  or an object; an object is the list of its own enumerable properties in enumeration
  order (keys are unique). Numbers are the integers the API carries (row identifiers
  and cell values); prototype properties are not part of the model.
\<close>

datatype jsval =
    VUndefined
  | VNull
  | VBool bool
  | VNum int
  | VStr string
  | VArr "jsval list"
  | VObj "(string \<times> jsval) list"

type_synonym 'v js_object = "(string \<times> 'v) list"

type_synonym jsobject = "jsval js_object"

text \<open>JavaScript truthiness, as used by \<^verbatim>\<open>!x\<close>, \<^verbatim>\<open>x && y\<close> and \<^verbatim>\<open>x || y\<close>.\<close>

fun truthy :: "jsval \<Rightarrow> bool" where
  "truthy VUndefined = False"
| "truthy VNull = False"
| "truthy (VBool b) = b"
| "truthy (VNum n) = (n \<noteq> 0)"
| "truthy (VStr s) = (s \<noteq> [])"
| "truthy (VArr xs) = True"
| "truthy (VObj ps) = True"

text \<open>\<^verbatim>\<open>obj[k]\<close>, \<^verbatim>\<open>obj[k] = v\<close> and \<^verbatim>\<open>delete obj[k]\<close> on own properties. Assigning an
  existing key keeps its place, a new key is added last.\<close>

definition lookup_prop :: "'v js_object \<Rightarrow> string \<Rightarrow> 'v option" where
  "lookup_prop obj k = map_of obj k"

definition get_prop :: "jsobject \<Rightarrow> string \<Rightarrow> jsval" where
  "get_prop obj k = (case lookup_prop obj k of None \<Rightarrow> VUndefined | Some v \<Rightarrow> v)"

fun set_prop :: "'v js_object \<Rightarrow> string \<Rightarrow> 'v \<Rightarrow> 'v js_object" where
  "set_prop [] k v = [(k, v)]"
| "set_prop ((k', v') # ps) k v =
     (if k' = k then (k, v) # ps else (k', v') # set_prop ps k v)"

definition del_prop :: "'v js_object \<Rightarrow> string \<Rightarrow> 'v js_object" where
  "del_prop obj k = filter (\<lambda>p. fst p \<noteq> k) obj"

section \<open>Column declarations and column mappings\<close>

text \<open>
  \<^verbatim>\<open>ColumnsToMap\<close> is the widget's declaration: each entry is a bare column name or an
  object \<^verbatim>\<open>{name, optional?}\<close> (\<open>ColObj n b\<close>, where \<open>b\<close> is the truthiness of the
  \<^verbatim>\<open>optional\<close> field). \<^verbatim>\<open>WidgetColumnMap\<close> maps a widget column to a host column, a
  list of host columns, or \<^verbatim>\<open>null\<close>; it is kept as the list of the object's entries in
  the order \<^verbatim>\<open>for ... in\<close> enumerates them.
\<close>

datatype column_to_map = ColName string | ColObj string bool

type_synonym ColumnsToMap = "column_to_map list"

datatype grist_col = GNull | GCol string | GCols "string list"

type_synonym WidgetColumnMap = "(string \<times> grist_col) list"

text \<open>A variable of type \<^verbatim>\<open>WidgetColumnMap|null|undefined\<close>.\<close>

datatype mappings_value = MUndefined | MNull | MObj WidgetColumnMap

record map_options =
  columns :: "ColumnsToMap option"
  mappings :: mappings_value

text \<open>The data handed to \<^verbatim>\<open>mapColumnNames\<close>: one record or an array of records.\<close>

datatype row_data = Record jsobject | Rows "jsobject list"

section \<open>mapColumnNames\<close>

text \<open>
  The closures pushed on \<^verbatim>\<open>transformations\<close>, each with the variables it captures:
  \<^item> \<open>CopyId\<close>: \<^verbatim>\<open>(from, to) => to.id = from.id\<close>;
  \<^item> \<open>CopySeries widgetCol gristCol\<close>:
    \<^verbatim>\<open>(from, to) => { to[widgetCol] = gristCol.map(col => from[col]); }\<close>;
  \<^item> \<open>CopyDirect widgetCol gristCol\<close>: \<^verbatim>\<open>(from, to) => to[widgetCol] = from[gristCol]\<close>.
\<close>

datatype transformation =
    CopyId
  | CopySeries string "string list"
  | CopyDirect string string

fun apply_transformation :: "transformation \<Rightarrow> jsobject \<Rightarrow> jsobject \<Rightarrow> jsobject" where
  "apply_transformation CopyId from to = set_prop to ''id'' (get_prop from ''id'')"
| "apply_transformation (CopySeries widgetCol gristCol) from to =
     set_prop to widgetCol (VArr (map (\<lambda>col. get_prop from col) gristCol))"
| "apply_transformation (CopyDirect widgetCol gristCol) from to =
     set_prop to widgetCol (get_prop from gristCol)"

text \<open>
  \<^verbatim>\<open>isOptional(col)\<close>: columns passed as strings are required; otherwise the column is
  optional when some object entry of that name has a truthy \<^verbatim>\<open>optional\<close>.
\<close>

definition isOptional :: "ColumnsToMap \<Rightarrow> string \<Rightarrow> bool" where
  "isOptional cols col =
     (ColName col \<notin> set cols
      \<and> find (\<lambda>c. case c of ColName n \<Rightarrow> False | ColObj n opt \<Rightarrow> n = col \<and> opt) cols \<noteq> None)"

text \<open>
  The loop \<^verbatim>\<open>for (const widgetCol in options.mappings)\<close>. It runs over the entries of the
  mapping, extends \<^verbatim>\<open>transformations\<close>, and leaves the function with \<^verbatim>\<open>null\<close> (\<open>None\<close>)
  at the first entry that is neither a non-empty array nor a truthy string and whose
  widget column is not optional.
\<close>

fun collect_transformations ::
  "ColumnsToMap \<Rightarrow> WidgetColumnMap \<Rightarrow> transformation list \<Rightarrow> transformation list option" where
  "collect_transformations cols [] ts = Some ts"
| "collect_transformations cols ((widgetCol, GCols gristCol) # rest) ts =
     (if gristCol \<noteq> [] then
        collect_transformations cols rest (ts @ [CopySeries widgetCol gristCol])
      else if \<not> isOptional cols widgetCol then None
      else collect_transformations cols rest ts)"
| "collect_transformations cols ((widgetCol, GCol gristCol) # rest) ts =
     (if gristCol \<noteq> [] then
        collect_transformations cols rest (ts @ [CopyDirect widgetCol gristCol])
      else if \<not> isOptional cols widgetCol then None
      else collect_transformations cols rest ts)"
| "collect_transformations cols ((widgetCol, GNull) # rest) ts =
     (if \<not> isOptional cols widgetCol then None
      else collect_transformations cols rest ts)"

text \<open>\<^verbatim>\<open>convert\<close>: \<^verbatim>\<open>transformations.reduce((obj, tran) => { tran(rec, obj); return obj; }, {})\<close>.\<close>

definition convert :: "transformation list \<Rightarrow> jsobject \<Rightarrow> jsobject" where
  "convert transformations rec =
     foldl (\<lambda>obj tran. apply_transformation tran rec obj) [] transformations"

text \<open>The result \<open>None\<close> is JavaScript's \<^verbatim>\<open>null\<close>.\<close>

definition mapColumnNames :: "row_data \<Rightarrow> map_options \<Rightarrow> row_data option" where
  "mapColumnNames data options =
     (case columns options of
        None \<Rightarrow> Some data
      | Some cols \<Rightarrow>
          (case mappings options of
             MUndefined \<Rightarrow> None
           | MNull \<Rightarrow> None
           | MObj m \<Rightarrow>
               if data = Rows [] then Some data
               else
                 (case collect_transformations cols m [CopyId] of
                    None \<Rightarrow> None
                  | Some transformations \<Rightarrow>
                      Some (case data of
                              Rows rs \<Rightarrow> Rows (map (convert transformations) rs)
                            | Record r \<Rightarrow> Record (convert transformations r)))))"

section \<open>The store of mapping objects and the JSON copy\<close>

text \<open>
  \<^verbatim>\<open>_mappingsCache\<close> holds a reference to an object, and a caller may mutate what
  \<^verbatim>\<open>getMappingsIfChanged\<close> hands out, so mapping objects live in an explicit store. A
  store is the list of its cells, an address is an index into it, and allocation adds a
  cell at the end. An object cell holds, for every property, \<^verbatim>\<open>null\<close>, a string or the
  address of an array cell.
\<close>

type_synonym addr = nat

datatype slot = SNull | SStr string | SArr addr

datatype cell = ObjCell "slot js_object" | ArrCell "string list"

type_synonym heap = "cell list"

definition cell_at :: "heap \<Rightarrow> addr \<Rightarrow> cell option" where
  "cell_at h a = (if a < length h then Some (h ! a) else None)"

text \<open>
  \<^verbatim>\<open>JSON.stringify\<close> reads the object graph below an address; the text it produces is
  kept as the value it denotes. \<open>None\<close> stands for a dangling or ill-typed reference.
\<close>

fun read_slot :: "heap \<Rightarrow> slot \<Rightarrow> grist_col option" where
  "read_slot h SNull = Some GNull"
| "read_slot h (SStr s) = Some (GCol s)"
| "read_slot h (SArr a) =
     (case cell_at h a of Some (ArrCell cs) \<Rightarrow> Some (GCols cs) | _ \<Rightarrow> None)"

fun read_slots :: "heap \<Rightarrow> slot js_object \<Rightarrow> WidgetColumnMap option" where
  "read_slots h [] = Some []"
| "read_slots h ((k, sl) # ps) =
     (case read_slot h sl of
        None \<Rightarrow> None
      | Some g \<Rightarrow>
          (case read_slots h ps of None \<Rightarrow> None | Some m \<Rightarrow> Some ((k, g) # m)))"

definition JSON_stringify :: "heap \<Rightarrow> addr \<Rightarrow> WidgetColumnMap option" where
  "JSON_stringify h a =
     (case cell_at h a of Some (ObjCell ps) \<Rightarrow> read_slots h ps | _ \<Rightarrow> None)"

text \<open>
  \<^verbatim>\<open>JSON.parse\<close> builds the value out of new cells: one array cell for every list of host
  columns, then the object cell. It returns the new store and the object's address. The
  same allocation stands for the object that the RPC layer hands to a \<^verbatim>\<open>then\<close> callback.
\<close>

fun alloc_slots :: "heap \<Rightarrow> WidgetColumnMap \<Rightarrow> heap \<times> slot js_object" where
  "alloc_slots h [] = (h, [])"
| "alloc_slots h ((k, GNull) # m) =
     (case alloc_slots h m of (h', ps) \<Rightarrow> (h', (k, SNull) # ps))"
| "alloc_slots h ((k, GCol c) # m) =
     (case alloc_slots h m of (h', ps) \<Rightarrow> (h', (k, SStr c) # ps))"
| "alloc_slots h ((k, GCols cs) # m) =
     (case alloc_slots (h @ [ArrCell cs]) m of (h', ps) \<Rightarrow> (h', (k, SArr (length h)) # ps))"

definition JSON_parse :: "heap \<Rightarrow> WidgetColumnMap \<Rightarrow> heap \<times> addr" where
  "JSON_parse h m = (case alloc_slots h m of (h', ps) \<Rightarrow> (h' @ [ObjCell ps], length h'))"

text \<open>The cells that make up the object at an address: its own cell and its arrays.\<close>

fun slot_addrs :: "slot js_object \<Rightarrow> addr list" where
  "slot_addrs [] = []"
| "slot_addrs ((k, SArr a) # ps) = a # slot_addrs ps"
| "slot_addrs ((k, SNull) # ps) = slot_addrs ps"
| "slot_addrs ((k, SStr s) # ps) = slot_addrs ps"

definition cells_of :: "heap \<Rightarrow> addr \<Rightarrow> addr list" where
  "cells_of h a =
     (case cell_at h a of Some (ObjCell ps) \<Rightarrow> a # slot_addrs ps | _ \<Rightarrow> [a])"

text \<open>A caller's mutations: a sequence of writes, each replacing the cell at an address.\<close>

definition mutate :: "heap \<Rightarrow> (addr \<times> cell) list \<Rightarrow> heap" where
  "mutate h ws = foldl (\<lambda>h' w. h'[fst w := snd w]) h ws"

section \<open>The widget process\<close>

text \<open>
  Functions are known by an identifier. A \<^verbatim>\<open>ReadyPayload\<close> (and the options object built
  from it) is an object whose properties hold a column declaration, a function, a
  boolean or any other value.
\<close>

type_synonym fn = nat

datatype setting = SColumns ColumnsToMap | SFunc fn | SBool bool | SVal jsval

type_synonym settings = "setting js_object"

fun truthy_setting :: "setting option \<Rightarrow> bool" where
  "truthy_setting None = False"
| "truthy_setting (Some (SColumns cs)) = True"
| "truthy_setting (Some (SFunc f)) = True"
| "truthy_setting (Some (SBool b)) = b"
| "truthy_setting (Some (SVal v)) = truthy v"

text \<open>\<^verbatim>\<open>_mappingsCache\<close> (\<^verbatim>\<open>WidgetColumnMap|null|undefined\<close>, by reference) and the value
  that \<^verbatim>\<open>getMappingsIfChanged\<close> resolves to (\<^verbatim>\<open>WidgetColumnMap|null\<close>, by reference).\<close>

datatype cache_ref = CUndefined | CNull | CRef addr

datatype ret_val = RNull | RRef addr

text \<open>The two callers of \<^verbatim>\<open>getMappingsIfChanged\<close>, each with what it does with the value:
  the listener of \<^verbatim>\<open>onRecord\<close> calls \<^verbatim>\<open>callback(rec, \<dots>)\<close>, the listener of \<^verbatim>\<open>onRecords\<close>
  calls \<^verbatim>\<open>callback(rows, \<dots>)\<close>.\<close>

datatype caller = RecordCaller fn jsobject | RecordsCaller fn "jsobject list"

text \<open>The listeners that \<^verbatim>\<open>onRecord\<close>, \<^verbatim>\<open>onRecords\<close> and \<^verbatim>\<open>onOptions\<close> register with
  \<^verbatim>\<open>on('message', ...)\<close>, each with the widget's callback.\<close>

datatype handler = RecordHandler fn | RecordsHandler fn | OptionsHandler fn

text \<open>What the process does to the outside world and to the widget's callbacks, in the
  order in which it happens. \<open>Callback c r\<close> is the call that the caller \<open>c\<close> of
  \<^verbatim>\<open>getMappingsIfChanged\<close> makes with the value \<open>r\<close>.\<close>

datatype effect =
    RegisterFunc string setting
  | ProcessIncoming
  | SendReadyMessage
  | Configure settings
  | ConsoleError jsval
  | Mappings
  | FetchSelectedRecord nat jsval
  | FetchSelectedTable nat
  | HandlerInvoked handler jsobject
  | Callback caller ret_val
  | OptionsCallback fn jsval jsval
  | UnhandledRejection

text \<open>
  The state of the process: the three module variables, the store, the RPC object's
  gate and queue, the listeners, the asynchronous functions suspended at an
  \<^verbatim>\<open>await\<close>, and the effects so far.
  \<^item> \<open>activeRefreshReq\<close> is true when \<^verbatim>\<open>_activeRefreshReq\<close> holds a promise;
  \<^item> \<open>refresh_waiters\<close>: the callers suspended at \<^verbatim>\<open>await _activeRefreshReq\<close>;
  \<^item> \<open>record_waiters\<close>: the \<^verbatim>\<open>onRecord\<close> listeners suspended at
    \<^verbatim>\<open>await docApi.fetchSelectedRecord(msg.rowId)\<close>, by request number;
  \<^item> \<open>table_waiters\<close>: the \<^verbatim>\<open>onRecords\<close> listeners suspended at
    \<^verbatim>\<open>await docApi.fetchSelectedTable()\<close>, by request number;
  \<^item> \<open>ready_waiters\<close>: the calls of \<^verbatim>\<open>ready\<close> suspended at \<^verbatim>\<open>await rpc.sendReadyMessage()\<close>;
  \<^item> \<open>configure_waiters\<close>: how many are suspended at \<^verbatim>\<open>await sectionApi.configure(...)\<close>;
  \<^item> \<open>mappings_in_flight\<close>: the calls of \<^verbatim>\<open>sectionApi.mappings()\<close> the host has not
    answered yet.
\<close>

record widget =
  mappingsCache :: cache_ref
  activeRefreshReq :: bool
  columnsToMap :: "ColumnsToMap option"
  heap :: heap
  processing_incoming :: bool
  inactive_queue :: "jsobject list"
  handlers :: "handler list"
  refresh_waiters :: "caller list"
  record_waiters :: "(nat \<times> fn \<times> jsobject) list"
  table_waiters :: "(nat \<times> fn \<times> jsobject) list"
  ready_waiters :: "settings option list"
  configure_waiters :: nat
  mappings_in_flight :: nat
  next_request :: nat
  effects :: "effect list"

text \<open>
  The process when the module has been loaded. The module builds \<^verbatim>\<open>rpc\<close> with a logger
  only (\<^verbatim>\<open>new Rpc({logger: createRpcLogger()})\<close>) and never asks it to hold inbound messages
  back: there is no call of \<^verbatim>\<open>rpc.queueIncoming()\<close>, and the one call that concerns the gate
  is \<^verbatim>\<open>rpc.processIncoming()\<close> in \<^verbatim>\<open>ready\<close>, which opens it. So the gate is open from the
  start. The docstring of \<^verbatim>\<open>ready\<close> leaves the waiting to the host: Grist will not attempt
  to communicate with the widget until this method is called.
\<close>

definition initial :: widget where
  "initial =
     \<lparr>mappingsCache = CUndefined, activeRefreshReq = False, columnsToMap = None,
      heap = [], processing_incoming = True, inactive_queue = [], handlers = [],
      refresh_waiters = [], record_waiters = [], table_waiters = [], ready_waiters = [],
      configure_waiters = 0, mappings_in_flight = 0, next_request = 0, effects = []\<rparr>"

definition emit :: "effect \<Rightarrow> widget \<Rightarrow> widget" where
  "emit e s = s\<lparr>effects := effects s @ [e]\<rparr>"

subsection \<open>getMappingsIfChanged\<close>

text \<open>
  The last line of \<^verbatim>\<open>getMappingsIfChanged\<close>,
  \<^verbatim>\<open>return _mappingsCache ? JSON.parse(JSON.stringify(_mappingsCache)) : null\<close>, followed
  by what its caller does with the value: the call of the widget's callback.
  Serialising a broken reference throws, and the caller's promise is rejected.
\<close>

definition return_mappings :: "caller \<Rightarrow> widget \<Rightarrow> widget" where
  "return_mappings caller s =
     (case mappingsCache s of
        CRef a \<Rightarrow>
          (case JSON_stringify (heap s) a of
             None \<Rightarrow> emit UnhandledRejection s
           | Some m \<Rightarrow>
               (case JSON_parse (heap s) m of
                  (h', a') \<Rightarrow>
                    emit (Callback caller (RRef a')) (s\<lparr>heap := h'\<rparr>)))
      | CNull \<Rightarrow> emit (Callback caller RNull) s
      | CUndefined \<Rightarrow> emit (Callback caller RNull) s)"

text \<open>
  The body of \<^verbatim>\<open>getMappingsIfChanged(data)\<close> up to its first suspension. When a refresh
  is needed it starts one unless one is active (\<^verbatim>\<open>sectionApi.mappings()\<close> is the effect
  \<open>Mappings\<close>) and suspends at \<^verbatim>\<open>await _activeRefreshReq\<close>; otherwise it returns.
\<close>

definition getMappingsIfChanged :: "jsobject \<Rightarrow> caller \<Rightarrow> widget \<Rightarrow> widget" where
  "getMappingsIfChanged data caller s =
     (let uninitialized = (mappingsCache s = CUndefined) in
      if truthy (get_prop data ''mappingsChange'') \<or> uninitialized then
        (let s1 =
           (if \<not> activeRefreshReq s then
              emit Mappings
                (s\<lparr>activeRefreshReq := True, mappings_in_flight := mappings_in_flight s + 1\<rparr>)
            else s)
         in s1\<lparr>refresh_waiters := refresh_waiters s1 @ [caller]\<rparr>)
      else return_mappings caller s)"

text \<open>The callers suspended at \<^verbatim>\<open>await _activeRefreshReq\<close> resume one after the other.\<close>

definition resume_all :: "caller list \<Rightarrow> widget \<Rightarrow> widget" where
  "resume_all ws s = foldl (\<lambda>s' caller. return_mappings caller s') s ws"

text \<open>
  The host answers \<^verbatim>\<open>mappings()\<close> with a mapping or \<^verbatim>\<open>null\<close>. The \<^verbatim>\<open>then\<close> callback stores
  the answer in \<^verbatim>\<open>_mappingsCache\<close>, the \<^verbatim>\<open>finally\<close> callback clears \<^verbatim>\<open>_activeRefreshReq\<close>,
  and the suspended callers resume in the order in which they suspended. All of this
  runs in one turn of the event loop, with no other code of the process in between.
\<close>

definition mappings_resolved :: "WidgetColumnMap option \<Rightarrow> widget \<Rightarrow> widget" where
  "mappings_resolved answer s =
     (let s1 =
        (case answer of
           None \<Rightarrow> s\<lparr>mappingsCache := CNull\<rparr>
         | Some m \<Rightarrow>
             (case JSON_parse (heap s) m of
                (h', a) \<Rightarrow> s\<lparr>heap := h', mappingsCache := CRef a\<rparr>));
          s2 = s1\<lparr>activeRefreshReq := False, mappings_in_flight := mappings_in_flight s1 - 1\<rparr>
      in resume_all (refresh_waiters s2) (s2\<lparr>refresh_waiters := []\<rparr>))"

text \<open>When the host's answer is a failure, \<^verbatim>\<open>then\<close> is skipped, \<^verbatim>\<open>finally\<close> clears
  \<^verbatim>\<open>_activeRefreshReq\<close>, and every suspended caller is rejected.\<close>

definition mappings_rejected :: "widget \<Rightarrow> widget" where
  "mappings_rejected s =
     (let s1 = s\<lparr>activeRefreshReq := False, mappings_in_flight := mappings_in_flight s - 1\<rparr>
      in foldl (\<lambda>s' caller. emit UnhandledRejection s')
           (s1\<lparr>refresh_waiters := []\<rparr>) (refresh_waiters s1))"

text \<open>The default options of \<^verbatim>\<open>mapColumnNames\<close>:
  \<^verbatim>\<open>{columns: _columnsToMap, mappings: _mappingsCache}\<close>.\<close>

definition deref :: "heap \<Rightarrow> cache_ref \<Rightarrow> mappings_value" where
  "deref h c =
     (case c of
        CUndefined \<Rightarrow> MUndefined
      | CNull \<Rightarrow> MNull
      | CRef a \<Rightarrow> (case JSON_stringify h a of None \<Rightarrow> MUndefined | Some m \<Rightarrow> MObj m))"

definition default_options :: "widget \<Rightarrow> map_options" where
  "default_options s =
     \<lparr>columns = columnsToMap s, mappings = deref (heap s) (mappingsCache s)\<rparr>"

text \<open>What a value returned by \<^verbatim>\<open>getMappingsIfChanged\<close> holds.\<close>

definition ret_value :: "heap \<Rightarrow> ret_val \<Rightarrow> mappings_value" where
  "ret_value h r = (case r of RNull \<Rightarrow> MNull | RRef a \<Rightarrow> deref h (CRef a))"

subsection \<open>onRecord, onRecords and onOptions\<close>

text \<open>\<^verbatim>\<open>mapValues(rec, decodeObject)\<close> of \<^verbatim>\<open>docApi.fetchSelectedRecord\<close> and
  \<^verbatim>\<open>mapValues(table, (col) => col.map(decodeObject))\<close> of \<^verbatim>\<open>docApi.fetchSelectedTable\<close>, both
  without \<^verbatim>\<open>keepEncoded\<close>; \<^verbatim>\<open>decodeObject\<close> comes from another module and is a parameter.\<close>

definition mapValues :: "'a js_object \<Rightarrow> ('a \<Rightarrow> 'b) \<Rightarrow> 'b js_object" where
  "mapValues obj f = map (\<lambda>p. (fst p, f (snd p))) obj"

text \<open>
  The listener of \<^verbatim>\<open>onRecord(callback)\<close> up to its first suspension: it leaves when
  \<^verbatim>\<open>msg.tableId\<close> or \<^verbatim>\<open>msg.rowId\<close> is falsy, and otherwise asks the host for the selected
  record and suspends.
\<close>

definition onRecord_listener :: "fn \<Rightarrow> jsobject \<Rightarrow> widget \<Rightarrow> widget" where
  "onRecord_listener callback msg s =
     (if \<not> truthy (get_prop msg ''tableId'') \<or> \<not> truthy (get_prop msg ''rowId'') then s
      else
        emit (FetchSelectedRecord (next_request s) (get_prop msg ''rowId''))
          (s\<lparr>record_waiters := record_waiters s @ [(next_request s, callback, msg)],
             next_request := next_request s + 1\<rparr>))"

text \<open>
  The rest of the listener, once the host has answered with the record \<open>raw\<close>:
  \<^verbatim>\<open>rec\<close> is the decoded record, and \<^verbatim>\<open>callback(rec, await getMappingsIfChanged(msg))\<close>.
\<close>

definition onRecord_resume ::
  "(jsval \<Rightarrow> jsval) \<Rightarrow> fn \<Rightarrow> jsobject \<Rightarrow> jsobject \<Rightarrow> widget \<Rightarrow> widget" where
  "onRecord_resume decodeObject callback msg raw s =
     (let rec = mapValues raw decodeObject
      in getMappingsIfChanged msg (RecordCaller callback rec) s)"

text \<open>
  The listener of \<^verbatim>\<open>onRecords(callback)\<close> up to its first suspension: it leaves when
  \<^verbatim>\<open>msg.tableId\<close> or \<^verbatim>\<open>msg.dataChange\<close> is falsy, and otherwise asks the host for the
  selected table and suspends.
\<close>

definition onRecords_listener :: "fn \<Rightarrow> jsobject \<Rightarrow> widget \<Rightarrow> widget" where
  "onRecords_listener callback msg s =
     (if \<not> truthy (get_prop msg ''tableId'') \<or> \<not> truthy (get_prop msg ''dataChange'') then s
      else
        emit (FetchSelectedTable (next_request s))
          (s\<lparr>table_waiters := table_waiters s @ [(next_request s, callback, msg)],
             next_request := next_request s + 1\<rparr>))"

text \<open>
  A table is an object of columns, each an array. The loop over \<^verbatim>\<open>data.id\<close> builds one row
  for every index: \<^verbatim>\<open>{id: data.id[i]}\<close>, then \<^verbatim>\<open>row[key] = data[key][i]\<close> for every key of
  the table. Reading an array past its end gives \<^verbatim>\<open>undefined\<close>.
\<close>

type_synonym table = "jsval list js_object"

definition element :: "jsval list \<Rightarrow> nat \<Rightarrow> jsval" where
  "element col i = (if i < length col then col ! i else VUndefined)"

definition column :: "table \<Rightarrow> string \<Rightarrow> jsval list" where
  "column data key = (case lookup_prop data key of None \<Rightarrow> [] | Some col \<Rightarrow> col)"

definition row_at :: "table \<Rightarrow> jsval list \<Rightarrow> nat \<Rightarrow> jsobject" where
  "row_at data ids i =
     foldl (\<lambda>row key. set_prop row key (element (column data key) i))
       [(''id'', element ids i)] (map fst data)"

text \<open>
  The rest of the listener, once the host has answered with the table \<open>raw\<close>: it leaves
  when the decoded table has no \<^verbatim>\<open>id\<close> column, and otherwise builds the rows and calls
  \<^verbatim>\<open>callback(rows, await getMappingsIfChanged(msg))\<close>.
\<close>

definition onRecords_resume ::
  "(jsval \<Rightarrow> jsval) \<Rightarrow> fn \<Rightarrow> jsobject \<Rightarrow> table \<Rightarrow> widget \<Rightarrow> widget" where
  "onRecords_resume decodeObject callback msg raw s =
     (let data = mapValues raw (map decodeObject) in
      case lookup_prop data ''id'' of
        None \<Rightarrow> s
      | Some ids \<Rightarrow>
          (let rows = map (row_at data ids) [0..<length ids]
           in getMappingsIfChanged msg (RecordsCaller callback rows) s))"

text \<open>The listener of \<^verbatim>\<open>onOptions(callback)\<close>:
  \<^verbatim>\<open>if (msg.settings) { callback(msg.options || null, msg.settings); }\<close>.\<close>

definition onOptions_listener :: "fn \<Rightarrow> jsobject \<Rightarrow> widget \<Rightarrow> widget" where
  "onOptions_listener callback msg s =
     (if truthy (get_prop msg ''settings'') then
        emit (OptionsCallback callback
               (if truthy (get_prop msg ''options'') then get_prop msg ''options'' else VNull)
               (get_prop msg ''settings'')) s
      else s)"

fun run_handler :: "handler \<Rightarrow> jsobject \<Rightarrow> widget \<Rightarrow> widget" where
  "run_handler (RecordHandler callback) msg s = onRecord_listener callback msg s"
| "run_handler (RecordsHandler callback) msg s = onRecords_listener callback msg s"
| "run_handler (OptionsHandler callback) msg s = onOptions_listener callback msg s"

text \<open>\<^verbatim>\<open>onRecord(callback)\<close>, \<^verbatim>\<open>onRecords(callback)\<close> and \<^verbatim>\<open>onOptions(callback)\<close> register
  their listener.\<close>

definition onRecord :: "fn \<Rightarrow> widget \<Rightarrow> widget" where
  "onRecord callback s = s\<lparr>handlers := handlers s @ [RecordHandler callback]\<rparr>"

definition onRecords :: "fn \<Rightarrow> widget \<Rightarrow> widget" where
  "onRecords callback s = s\<lparr>handlers := handlers s @ [RecordsHandler callback]\<rparr>"

definition onOptions :: "fn \<Rightarrow> widget \<Rightarrow> widget" where
  "onOptions callback s = s\<lparr>handlers := handlers s @ [OptionsHandler callback]\<rparr>"

subsection \<open>The RPC object\<close>

text \<open>
  The object \<^verbatim>\<open>rpc\<close> is an instance of the class \<^verbatim>\<open>Rpc\<close> of the package \<^verbatim>\<open>grain-rpc\<close>, which
  is not part of the sources. The spec takes it as a given primitive with send and
  receive plumbing and an event subscription, and speaks of a gate that admits inbound
  messages. The field \<open>processing_incoming\<close> is that gate, and \<open>inactive_queue\<close> holds what a
  closed gate has held back.
\<close>

text \<open>Modelled from the spec: the dispatch of an admitted message by \<^verbatim>\<open>Rpc\<close> (missing from
  the sources). The message goes to every listener registered with
  \<^verbatim>\<open>on('message', ...)\<close>, in the order of registration.\<close>

definition dispatch :: "jsobject \<Rightarrow> widget \<Rightarrow> widget" where
  "dispatch msg s =
     foldl (\<lambda>s' h. run_handler h msg (emit (HandlerInvoked h msg) s')) s (handlers s)"

text \<open>Modelled from the spec: \<^verbatim>\<open>Rpc.receiveMessage\<close> (missing from the sources). A message
  received while the gate is open is dispatched; one received while the gate is closed
  is held back.\<close>

definition receiveMessage :: "jsobject \<Rightarrow> widget \<Rightarrow> widget" where
  "receiveMessage msg s =
     (if processing_incoming s then dispatch msg s
      else s\<lparr>inactive_queue := inactive_queue s @ [msg]\<rparr>)"

text \<open>Modelled from the spec: \<^verbatim>\<open>Rpc.processIncoming\<close> (missing from the sources). It opens
  the gate and dispatches the messages held back so far.\<close>

definition processIncoming :: "widget \<Rightarrow> widget" where
  "processIncoming s =
     foldl (\<lambda>s' msg. dispatch msg s')
       (emit ProcessIncoming (s\<lparr>processing_incoming := True, inactive_queue := []\<rparr>))
       (inactive_queue s)"

subsection \<open>ready\<close>

text \<open>
  The synchronous part of \<^verbatim>\<open>ready(settings)\<close>: register \<^verbatim>\<open>editOptions\<close> when
  \<^verbatim>\<open>settings.onEditOptions\<close> is truthy, call \<^verbatim>\<open>rpc.processIncoming()\<close>, and run the
  asynchronous function up to its first suspension, which calls
  \<^verbatim>\<open>rpc.sendReadyMessage()\<close>.
\<close>

definition ready :: "settings option \<Rightarrow> widget \<Rightarrow> widget" where
  "ready st s =
     (let s1 =
        (case st of
           None \<Rightarrow> s
         | Some stg \<Rightarrow>
             (case lookup_prop stg ''onEditOptions'' of
                None \<Rightarrow> s
              | Some f \<Rightarrow>
                  if truthy_setting (Some f) then emit (RegisterFunc ''editOptions'' f) s
                  else s));
          s2 = processIncoming s1;
          s3 = emit SendReadyMessage s2
      in s3\<lparr>ready_waiters := ready_waiters s3 @ [st]\<rparr>)"

text \<open>
  The options object sent to the host:
  \<^verbatim>\<open>{...settings, hasCustomOptions: Boolean(settings.onEditOptions)}\<close> after
  \<^verbatim>\<open>delete options.onEditOptions\<close>.
\<close>

definition configure_options :: "settings \<Rightarrow> settings" where
  "configure_options stg =
     (let options =
        set_prop stg ''hasCustomOptions''
          (SBool (truthy_setting (lookup_prop stg ''onEditOptions'')))
      in del_prop options ''onEditOptions'')"

definition options_columns :: "settings \<Rightarrow> ColumnsToMap option" where
  "options_columns options =
     (case lookup_prop options ''columns'' of Some (SColumns cs) \<Rightarrow> Some cs | _ \<Rightarrow> None)"

text \<open>
  The asynchronous function of \<^verbatim>\<open>ready\<close> after \<^verbatim>\<open>await rpc.sendReadyMessage()\<close>: with
  settings it builds the options, stores \<^verbatim>\<open>options.columns\<close> in \<^verbatim>\<open>_columnsToMap\<close>, calls
  \<^verbatim>\<open>sectionApi.configure(options)\<close> and suspends.
\<close>

definition ready_resume :: "settings option \<Rightarrow> widget \<Rightarrow> widget" where
  "ready_resume st s =
     (case st of
        None \<Rightarrow> s
      | Some stg \<Rightarrow>
          (let options = configure_options stg;
               s1 = s\<lparr>columnsToMap := options_columns options\<rparr>
           in emit (Configure options) (s1\<lparr>configure_waiters := configure_waiters s1 + 1\<rparr>)))"

text \<open>A rejected \<^verbatim>\<open>configure\<close> goes to \<^verbatim>\<open>.catch((err) => console.error(err))\<close>, and the
  asynchronous function ends normally in both cases.\<close>

definition configure_resolved :: "widget \<Rightarrow> widget" where
  "configure_resolved s = s\<lparr>configure_waiters := configure_waiters s - 1\<rparr>"

definition configure_rejected :: "jsval \<Rightarrow> widget \<Rightarrow> widget" where
  "configure_rejected err s =
     emit (ConsoleError err) (s\<lparr>configure_waiters := configure_waiters s - 1\<rparr>)"

subsection \<open>Turns of the event loop\<close>

text \<open>
  One turn of the event loop: the widget calls into the module, the host delivers a
  message, or the host settles a call that is waiting for it. An answer to a call that
  nobody is waiting for changes nothing. The answers to \<^verbatim>\<open>sendReadyMessage\<close> come in
  the order of the calls.
\<close>

datatype event =
    CallReady "settings option"
  | CallOnRecord fn
  | CallOnRecords fn
  | CallOnOptions fn
  | Receive jsobject
  | ReadyMessageSent
  | ReadyMessageFailed
  | ConfigureResolved
  | ConfigureRejected jsval
  | RecordFetched nat jsobject
  | RecordFetchFailed nat
  | TableFetched nat table
  | TableFetchFailed nat
  | MappingsResolved "WidgetColumnMap option"
  | MappingsRejected

definition waiter_of :: "nat \<Rightarrow> (nat \<times> fn \<times> jsobject) list \<Rightarrow> (nat \<times> fn \<times> jsobject) option" where
  "waiter_of rid ws = find (\<lambda>w. fst w = rid) ws"

definition drop_waiter :: "nat \<Rightarrow> (nat \<times> fn \<times> jsobject) list \<Rightarrow> (nat \<times> fn \<times> jsobject) list" where
  "drop_waiter rid ws = filter (\<lambda>w. fst w \<noteq> rid) ws"

fun step :: "(jsval \<Rightarrow> jsval) \<Rightarrow> widget \<Rightarrow> event \<Rightarrow> widget" where
  "step decodeObject s (CallReady st) = ready st s"
| "step decodeObject s (CallOnRecord callback) = onRecord callback s"
| "step decodeObject s (CallOnRecords callback) = onRecords callback s"
| "step decodeObject s (CallOnOptions callback) = onOptions callback s"
| "step decodeObject s (Receive msg) = receiveMessage msg s"
| "step decodeObject s ReadyMessageSent =
     (case ready_waiters s of
        [] \<Rightarrow> s
      | st # rest \<Rightarrow> ready_resume st (s\<lparr>ready_waiters := rest\<rparr>))"
| "step decodeObject s ReadyMessageFailed =
     (case ready_waiters s of
        [] \<Rightarrow> s
      | st # rest \<Rightarrow> emit UnhandledRejection (s\<lparr>ready_waiters := rest\<rparr>))"
| "step decodeObject s ConfigureResolved =
     (if configure_waiters s = 0 then s else configure_resolved s)"
| "step decodeObject s (ConfigureRejected err) =
     (if configure_waiters s = 0 then s else configure_rejected err s)"
| "step decodeObject s (RecordFetched rid raw) =
     (case waiter_of rid (record_waiters s) of
        None \<Rightarrow> s
      | Some w \<Rightarrow>
          onRecord_resume decodeObject (fst (snd w)) (snd (snd w)) raw
            (s\<lparr>record_waiters := drop_waiter rid (record_waiters s)\<rparr>))"
| "step decodeObject s (RecordFetchFailed rid) =
     (case waiter_of rid (record_waiters s) of
        None \<Rightarrow> s
      | Some w \<Rightarrow>
          emit UnhandledRejection (s\<lparr>record_waiters := drop_waiter rid (record_waiters s)\<rparr>))"
| "step decodeObject s (TableFetched rid raw) =
     (case waiter_of rid (table_waiters s) of
        None \<Rightarrow> s
      | Some w \<Rightarrow>
          onRecords_resume decodeObject (fst (snd w)) (snd (snd w)) raw
            (s\<lparr>table_waiters := drop_waiter rid (table_waiters s)\<rparr>))"
| "step decodeObject s (TableFetchFailed rid) =
     (case waiter_of rid (table_waiters s) of
        None \<Rightarrow> s
      | Some w \<Rightarrow>
          emit UnhandledRejection (s\<lparr>table_waiters := drop_waiter rid (table_waiters s)\<rparr>))"
| "step decodeObject s (MappingsResolved answer) =
     (if mappings_in_flight s = 0 then s else mappings_resolved answer s)"
| "step decodeObject s MappingsRejected =
     (if mappings_in_flight s = 0 then s else mappings_rejected s)"

definition run :: "(jsval \<Rightarrow> jsval) \<Rightarrow> widget \<Rightarrow> event list \<Rightarrow> widget" where
  "run decodeObject s es = foldl (step decodeObject) s es"

section \<open>Notions used in the statements\<close>

text \<open>Several calls of \<^verbatim>\<open>getMappingsIfChanged\<close> one after the other, each given as the
  event data and the caller.\<close>

definition issue :: "(jsobject \<times> caller) list \<Rightarrow> widget \<Rightarrow> widget" where
  "issue calls s = foldl (\<lambda>s' c. getMappingsIfChanged (fst c) (snd c) s') s calls"

text \<open>The host's answer to \<^verbatim>\<open>mappings()\<close> as a value, and what a callback was called
  with: the caller (the callback and its first argument) and the value of its second
  argument.\<close>

definition answer_value :: "WidgetColumnMap option \<Rightarrow> mappings_value" where
  "answer_value answer = (case answer of None \<Rightarrow> MNull | Some m \<Rightarrow> MObj m)"

text \<open>The effects of handing a message to the listeners, and the effects that reach a
  listener or a callback of the widget.\<close>

fun listener_effect :: "effect \<Rightarrow> bool" where
  "listener_effect (HandlerInvoked h msg) = True"
| "listener_effect (FetchSelectedRecord rid row) = True"
| "listener_effect (FetchSelectedTable rid) = True"
| "listener_effect (OptionsCallback callback opts stg) = True"
| "listener_effect e = False"

fun reaches_widget :: "effect \<Rightarrow> bool" where
  "reaches_widget (HandlerInvoked h msg) = True"
| "reaches_widget (Callback c r) = True"
| "reaches_widget (OptionsCallback callback opts stg) = True"
| "reaches_widget e = False"

text \<open>The calls of \<^verbatim>\<open>sectionApi.mappings()\<close> made so far, and the host's answers to them
  among the events.\<close>

fun is_mappings_call :: "effect \<Rightarrow> bool" where
  "is_mappings_call Mappings = True"
| "is_mappings_call e = False"

fun is_mappings_answer :: "event \<Rightarrow> bool" where
  "is_mappings_answer (MappingsResolved answer) = True"
| "is_mappings_answer MappingsRejected = True"
| "is_mappings_answer e = False"

definition mappings_calls :: "widget \<Rightarrow> nat" where
  "mappings_calls s = length (filter is_mappings_call (effects s))"

text \<open>Calls of \<^verbatim>\<open>sectionApi.configure\<close>, and rejections that nothing handles.\<close>

fun is_configure :: "effect \<Rightarrow> bool" where
  "is_configure (Configure options) = True"
| "is_configure e = False"

fun is_rejection :: "effect \<Rightarrow> bool" where
  "is_rejection UnhandledRejection = True"
| "is_rejection e = False"

text \<open>The effects of registering \<^verbatim>\<open>editOptions\<close> in \<^verbatim>\<open>ready(settings)\<close>.\<close>

definition registration :: "settings option \<Rightarrow> effect list" where
  "registration st =
     (case st of
        None \<Rightarrow> []
      | Some stg \<Rightarrow>
          (case lookup_prop stg ''onEditOptions'' of
             None \<Rightarrow> []
           | Some f \<Rightarrow> if truthy_setting (Some f) then [RegisterFunc ''editOptions'' f] else []))"

text \<open>At most one refresh in flight: the host owes an answer exactly when
  \<^verbatim>\<open>_activeRefreshReq\<close> holds a promise.\<close>

definition single_flight :: "widget \<Rightarrow> bool" where
  "single_flight s = (mappings_in_flight s = (if activeRefreshReq s then 1 else 0))"

fun callback_of :: "heap \<Rightarrow> effect \<Rightarrow> (caller \<times> mappings_value) option" where
  "callback_of h (Callback c r) = Some (c, ret_value h r)"
| "callback_of h e = None"

text \<open>The property that a transformation assigns.\<close>

fun writes :: "transformation \<Rightarrow> string" where
  "writes CopyId = ''id''"
| "writes (CopySeries widgetCol gristCol) = widgetCol"
| "writes (CopyDirect widgetCol gristCol) = widgetCol"

text \<open>A mapping entry that supplies no host column: \<^verbatim>\<open>null\<close>, an empty array or an empty
  string.\<close>

definition unmapped :: "grist_col \<Rightarrow> bool" where
  "unmapped g = (g = GNull \<or> g = GCols [] \<or> g = GCol [])"

section \<open>Properties of mapColumnNames\<close>

subsection \<open>Objects\<close>

lemma lookup_prop_Nil: "lookup_prop [] k = None"
  by (simp add: lookup_prop_def)

lemma lookup_prop_Cons:
  "lookup_prop ((k, v) # ps) k' = (if k = k' then Some v else lookup_prop ps k')"
  by (simp add: lookup_prop_def)

lemma lookup_set_prop:
  "lookup_prop (set_prop obj k v) k' = (if k' = k then Some v else lookup_prop obj k')"
  by (induction obj) (auto simp: lookup_prop_def)

lemma get_set_prop:
  "get_prop (set_prop obj k v) k' = (if k' = k then v else get_prop obj k')"
  by (simp add: get_prop_def lookup_set_prop)

lemma lookup_apply_other:
  "writes t \<noteq> k \<Longrightarrow> lookup_prop (apply_transformation t r obj) k = lookup_prop obj k"
  by (cases t) (auto simp: lookup_set_prop)

lemma lookup_foldl_other:
  "\<forall>t \<in> set ts. writes t \<noteq> k \<Longrightarrow>
   lookup_prop (foldl (\<lambda>obj tran. apply_transformation tran r obj) obj ts) k = lookup_prop obj k"
  by (induction ts arbitrary: obj) (auto simp: lookup_apply_other)

lemma collect_append:
  "collect_transformations cols (m1 @ m2) ts =
     (case collect_transformations cols m1 ts of
        None \<Rightarrow> None
      | Some ts1 \<Rightarrow> collect_transformations cols m2 ts1)"
  by (induction cols m1 ts rule: collect_transformations.induct) auto

lemma collect_writes:
  "collect_transformations cols m ts = Some ts' \<Longrightarrow>
   \<exists>new. ts' = ts @ new \<and> (\<forall>t \<in> set new. writes t \<in> fst ` set m)"
proof (induction cols m ts rule: collect_transformations.induct)
  case (1 cols ts)
  then show ?case by simp
next
  case (2 cols widgetCol gristCol rest ts)
  then show ?case by (fastforce split: if_splits)
next
  case (3 cols widgetCol gristCol rest ts)
  then show ?case by (fastforce split: if_splits)
next
  case (4 cols widgetCol rest ts)
  then show ?case by (fastforce split: if_splits)
qed



lemma collect_required_unmapped:
  "(w, g) \<in> set m \<Longrightarrow> unmapped g \<Longrightarrow> \<not> isOptional cols w \<Longrightarrow>
   collect_transformations cols m ts = None"
  by (induction cols m ts rule: collect_transformations.induct) (auto simp: unmapped_def)

lemma collect_series:
  "distinct (map fst m) \<Longrightarrow> (w, GCols cs) \<in> set m \<Longrightarrow> cs \<noteq> [] \<Longrightarrow>
   collect_transformations cols m ts = Some ts' \<Longrightarrow>
   \<exists>pre post. ts' = pre @ [CopySeries w cs] @ post \<and> (\<forall>t \<in> set post. writes t \<noteq> w)"
proof (induction m arbitrary: ts)
  case Nil
  then show ?case by simp
next
  case (Cons e rest)
  obtain k g where e: "e = (k, g)" by (cases e)
  show ?case
  proof (cases "e = (w, GCols cs)")
    case True
    with Cons.prems have c: "collect_transformations cols rest (ts @ [CopySeries w cs]) = Some ts'"
      by simp
    from collect_writes [OF c] obtain new where
      n: "ts' = (ts @ [CopySeries w cs]) @ new" "\<forall>t \<in> set new. writes t \<in> fst ` set rest"
      by blast
    from Cons.prems(1) True have "w \<notin> fst ` set rest" by simp
    with n have "\<forall>t \<in> set new. writes t \<noteq> w" by metis
    with n(1) show ?thesis by auto
  next
    case False
    with Cons.prems have mem: "(w, GCols cs) \<in> set rest" by simp
    from Cons.prems(1) have d: "distinct (map fst rest)" by simp
    from Cons.prems(4) e obtain ts1 where "collect_transformations cols rest ts1 = Some ts'"
      by (cases g) (auto split: if_splits)
    from Cons.IH [OF d mem Cons.prems(3) this] show ?thesis .
  qed
qed

lemma convert_series:
  assumes "ts = pre @ [CopySeries w cs] @ post" and "\<forall>t \<in> set post. writes t \<noteq> w"
  shows "get_prop (convert ts r) w = VArr (map (get_prop r) cs)"
  using assms by (simp add: convert_def get_prop_def lookup_foldl_other lookup_set_prop)

lemma lookup_convert_absent:
  assumes "collect_transformations cols m [CopyId] = Some ts"
    and "w \<noteq> ''id''" and "w \<notin> fst ` set m"
  shows "lookup_prop (convert ts r) w = None"
proof -
  from collect_writes [OF assms(1)] obtain new where
    n: "ts = [CopyId] @ new" "\<forall>t \<in> set new. writes t \<in> fst ` set m"
    by blast
  with assms(3) have "\<forall>t \<in> set new. writes t \<noteq> w" by metis
  with n(1) assms(2) show ?thesis
    by (simp add: convert_def lookup_foldl_other lookup_prop_Cons lookup_prop_Nil)
qed

lemma mapColumnNames_required_entry_unmapped:
  assumes "(w, g) \<in> set m" and "unmapped g" and "\<not> isOptional cols w"
    and "data \<noteq> Rows []"
  shows "mapColumnNames data \<lparr>columns = Some cols, mappings = MObj m\<rparr> = None"
  using assms collect_required_unmapped [of w g m cols "[CopyId]"]
  by (simp add: mapColumnNames_def)

lemma mapColumnNames_mappings_absent:
  assumes "mv = MUndefined \<or> mv = MNull"
  shows "mapColumnNames data \<lparr>columns = Some cols, mappings = mv\<rparr> = None"
  using assms by (auto simp: mapColumnNames_def)

subsection \<open>Required columns\<close>

text \<open>
  Claim C2 (required-column totality): with a declaration, a mapping and non-empty data,
  the result is \<^verbatim>\<open>null\<close> whenever a declared required column is unmapped, so that no
  partially filled record is produced.

  The loop of \<^verbatim>\<open>mapColumnNames\<close> runs over the entries of the mapping, not over the
  declaration. An entry that supplies no host column for a required column ends the
  function with \<^verbatim>\<open>null\<close> (\<open>mapColumnNames_required_entry_unmapped\<close>), but a required
  column for which the mapping has no entry at all is never looked at. The theorem
  evaluates the function there: with the declaration
  \<^verbatim>\<open>[{name: "A"}, {name: "B", optional: true}]\<close> and the mapping \<^verbatim>\<open>{B: "colX"}\<close>, the
  required column \<^verbatim>\<open>A\<close> is unmapped and the record \<^verbatim>\<open>{id: 1, colX: 5}\<close> still becomes
  \<^verbatim>\<open>{id: 1, B: 5}\<close>; with the declaration \<^verbatim>\<open>["A"]\<close> and the mapping \<^verbatim>\<open>{}\<close>, a table of one
  row becomes a table of one row.
\<close>

theorem C2_required_column_without_entry:
  "mapColumnNames (Record [(''id'', VNum 1), (''colX'', VNum 5)])
     \<lparr>columns = Some [ColObj ''A'' False, ColObj ''B'' True],
      mappings = MObj [(''B'', GCol ''colX'')]\<rparr>
   = Some (Record [(''id'', VNum 1), (''B'', VNum 5)])
   \<and> \<not> isOptional [ColObj ''A'' False, ColObj ''B'' True] ''A''
   \<and> lookup_prop [(''B'', GCol ''colX'')] ''A'' = None
   \<and> mapColumnNames (Rows [[(''id'', VNum 1)]])
        \<lparr>columns = Some [ColName ''A''], mappings = MObj []\<rparr>
      = Some (Rows [[(''id'', VNum 1)]])"
  by (simp add: mapColumnNames_def convert_def get_prop_def lookup_prop_def isOptional_def)

subsection \<open>Empty tables\<close>

text \<open>
  Claim C8 (empty-table short-circuit): for every declaration, present or not, and every
  mapping, \<^verbatim>\<open>mapColumnNames\<close> returns an empty table as it is, and not \<^verbatim>\<open>null\<close>. (When
  there is a declaration and no mapping at all, the earlier test \<^verbatim>\<open>!options.mappings\<close>
  answers \<^verbatim>\<open>null\<close> for any data: \<open>mapColumnNames_mappings_absent\<close>.)
\<close>

theorem C8_empty_table:
  "mapColumnNames (Rows []) \<lparr>columns = cols, mappings = MObj m\<rparr> = Some (Rows [])"
  by (simp add: mapColumnNames_def split: option.splits)

text \<open>The theorem at the declaration \<^verbatim>\<open>["A"]\<close> and the mapping \<^verbatim>\<open>{A: null}\<close>.\<close>

theorem C8_empty_table_witness:
  "mapColumnNames (Rows []) \<lparr>columns = Some [ColName ''A''], mappings = MObj [(''A'', GNull)]\<rparr>
     = Some (Rows [])"
  by (rule C8_empty_table)

subsection \<open>Series columns\<close>

text \<open>
  Claim C9 (series-column semantics): when the mapping assigns a non-empty list of host
  columns to a widget column, the projected value of that column is, for each row, the
  list of the row's values of these host columns, in order. The result of a projection
  that is not \<^verbatim>\<open>null\<close> is the data with one function \<open>f\<close> applied to the record or to
  every row, and \<open>f r\<close> holds that list at the widget column. In particular the row
  \<^verbatim>\<open>{id: 1, c1: "x", c2: "y"}\<close> with the declaration \<^verbatim>\<open>[{name: "tags"}]\<close> and the mapping
  \<^verbatim>\<open>{tags: ["c1", "c2"]}\<close> becomes \<^verbatim>\<open>{id: 1, tags: ["x", "y"]}\<close>. The keys of the mapping
  are distinct, as the keys of an object are.
\<close>

theorem C9_series_column:
  assumes "distinct (map fst m)"
    and "(widgetCol, GCols gristCol) \<in> set m"
    and "gristCol \<noteq> []"
    and "mapColumnNames data \<lparr>columns = Some cols, mappings = MObj m\<rparr> = Some out"
  shows "(\<exists>f. (\<forall>r. get_prop (f r) widgetCol = VArr (map (get_prop r) gristCol))
            \<and> out = (case data of Rows rs \<Rightarrow> Rows (map f rs) | Record r \<Rightarrow> Record (f r)))
       \<and> mapColumnNames (Record [(''id'', VNum 1), (''c1'', VStr ''x''), (''c2'', VStr ''y'')])
            \<lparr>columns = Some [ColObj ''tags'' False],
             mappings = MObj [(''tags'', GCols [''c1'', ''c2''])]\<rparr>
          = Some (Record [(''id'', VNum 1), (''tags'', VArr [VStr ''x'', VStr ''y''])])"
proof
  show "\<exists>f. (\<forall>r. get_prop (f r) widgetCol = VArr (map (get_prop r) gristCol))
            \<and> out = (case data of Rows rs \<Rightarrow> Rows (map f rs) | Record r \<Rightarrow> Record (f r))"
  proof (cases "data = Rows []")
    case True
    with assms(4) have "out = Rows []" by (simp add: mapColumnNames_def)
    with True have
      "(\<forall>r. get_prop (convert [CopySeries widgetCol gristCol] r) widgetCol
            = VArr (map (get_prop r) gristCol))
       \<and> out = (case data of Rows rs \<Rightarrow> Rows (map (convert [CopySeries widgetCol gristCol]) rs)
                 | Record r \<Rightarrow> Record (convert [CopySeries widgetCol gristCol] r))"
      by (simp add: convert_def get_prop_def lookup_prop_def)
    then show ?thesis by blast
  next
    case False
    with assms(4) obtain ts where
      ts: "collect_transformations cols m [CopyId] = Some ts"
      and out: "out = (case data of Rows rs \<Rightarrow> Rows (map (convert ts) rs)
                        | Record r \<Rightarrow> Record (convert ts r))"
      by (auto simp: mapColumnNames_def split: option.splits)
    from collect_series [OF assms(1) assms(2) assms(3) ts] obtain pre post where
      "ts = pre @ [CopySeries widgetCol gristCol] @ post" "\<forall>t \<in> set post. writes t \<noteq> widgetCol"
      by blast
    then have "\<forall>r. get_prop (convert ts r) widgetCol = VArr (map (get_prop r) gristCol)"
      using convert_series by blast
    with out show ?thesis by blast
  qed
next
  show "mapColumnNames (Record [(''id'', VNum 1), (''c1'', VStr ''x''), (''c2'', VStr ''y'')])
            \<lparr>columns = Some [ColObj ''tags'' False],
             mappings = MObj [(''tags'', GCols [''c1'', ''c2''])]\<rparr>
          = Some (Record [(''id'', VNum 1), (''tags'', VArr [VStr ''x'', VStr ''y''])])"
    by (simp add: mapColumnNames_def convert_def get_prop_def lookup_prop_def)
qed

text \<open>The theorem at a table of two rows, the second without the host column
  \<^verbatim>\<open>c2\<close>.\<close>

theorem C9_series_column_witness:
  "(\<exists>f. (\<forall>r. get_prop (f r) ''tags'' = VArr (map (get_prop r) [''c1'', ''c2'']))
      \<and> Rows [[(''id'', VNum 1), (''tags'', VArr [VStr ''x'', VStr ''y''])],
               [(''id'', VNum 2), (''tags'', VArr [VStr ''u'', VUndefined])]]
          = Rows (map f [[(''id'', VNum 1), (''c1'', VStr ''x''), (''c2'', VStr ''y'')],
                         [(''id'', VNum 2), (''c1'', VStr ''u'')]]))
   \<and> mapColumnNames (Record [(''id'', VNum 1), (''c1'', VStr ''x''), (''c2'', VStr ''y'')])
        \<lparr>columns = Some [ColObj ''tags'' False],
         mappings = MObj [(''tags'', GCols [''c1'', ''c2''])]\<rparr>
      = Some (Record [(''id'', VNum 1), (''tags'', VArr [VStr ''x'', VStr ''y''])])"
proof -
  have d: "distinct (map fst [(''tags'', GCols [''c1'', ''c2''])])" by simp
  have i: "(''tags'', GCols [''c1'', ''c2'']) \<in> set [(''tags'', GCols [''c1'', ''c2''])]" by simp
  have n: "[''c1'', ''c2''] \<noteq> []" by simp
  have e: "mapColumnNames
             (Rows [[(''id'', VNum 1), (''c1'', VStr ''x''), (''c2'', VStr ''y'')],
                    [(''id'', VNum 2), (''c1'', VStr ''u'')]])
             \<lparr>columns = Some [ColObj ''tags'' False],
              mappings = MObj [(''tags'', GCols [''c1'', ''c2''])]\<rparr>
           = Some (Rows [[(''id'', VNum 1), (''tags'', VArr [VStr ''x'', VStr ''y''])],
                         [(''id'', VNum 2), (''tags'', VArr [VStr ''u'', VUndefined])]])"
    by (simp add: mapColumnNames_def convert_def get_prop_def lookup_prop_def)
  show ?thesis using C9_series_column [OF d i n e] by simp
qed

subsection \<open>Empty sequences\<close>

text \<open>
  Claim C10 (an empty sequence is an unmapped column): with a declaration, a mapping and
  non-empty data, a mapping entry whose value is \<^verbatim>\<open>[]\<close> behaves like an entry without a
  host column. The result is the same as with \<^verbatim>\<open>null\<close> in place of \<^verbatim>\<open>[]\<close>. When the
  column is optional the result is the same as without the entry, and the output has
  no property of that name (for a column other than the identifier \<^verbatim>\<open>id\<close>, which is
  always copied). When the column is not optional the whole projection is \<^verbatim>\<open>null\<close>.
\<close>

theorem C10_empty_sequence_unmapped:
  "mapColumnNames data \<lparr>columns = Some cols, mappings = MObj (m1 @ (w, GCols []) # m2)\<rparr>
     = mapColumnNames data \<lparr>columns = Some cols, mappings = MObj (m1 @ (w, GNull) # m2)\<rparr>
   \<and> (isOptional cols w \<longrightarrow>
        mapColumnNames data \<lparr>columns = Some cols, mappings = MObj (m1 @ (w, GCols []) # m2)\<rparr>
          = mapColumnNames data \<lparr>columns = Some cols, mappings = MObj (m1 @ m2)\<rparr>)
   \<and> (isOptional cols w \<longrightarrow> w \<noteq> ''id'' \<longrightarrow> w \<notin> fst ` set (m1 @ m2) \<longrightarrow>
        mapColumnNames data \<lparr>columns = Some cols, mappings = MObj (m1 @ (w, GCols []) # m2)\<rparr>
          = Some out \<longrightarrow> data \<noteq> Rows [] \<longrightarrow>
        (\<exists>f. (\<forall>r. lookup_prop (f r) w = None)
            \<and> out = (case data of Rows rs \<Rightarrow> Rows (map f rs) | Record r \<Rightarrow> Record (f r))))
   \<and> (\<not> isOptional cols w \<longrightarrow> data \<noteq> Rows [] \<longrightarrow>
        mapColumnNames data \<lparr>columns = Some cols, mappings = MObj (m1 @ (w, GCols []) # m2)\<rparr>
          = None)"
proof (intro conjI impI)
  show "mapColumnNames data \<lparr>columns = Some cols, mappings = MObj (m1 @ (w, GCols []) # m2)\<rparr>
     = mapColumnNames data \<lparr>columns = Some cols, mappings = MObj (m1 @ (w, GNull) # m2)\<rparr>"
    by (simp add: mapColumnNames_def collect_append split: option.splits)
next
  assume opt: "isOptional cols w"
  then show eq: "mapColumnNames data
          \<lparr>columns = Some cols, mappings = MObj (m1 @ (w, GCols []) # m2)\<rparr>
        = mapColumnNames data \<lparr>columns = Some cols, mappings = MObj (m1 @ m2)\<rparr>"
    by (simp add: mapColumnNames_def collect_append split: option.splits)
  assume "w \<noteq> ''id''" and "w \<notin> fst ` set (m1 @ m2)" and "data \<noteq> Rows []"
    and "mapColumnNames data \<lparr>columns = Some cols, mappings = MObj (m1 @ (w, GCols []) # m2)\<rparr>
          = Some out"
  with eq have "mapColumnNames data \<lparr>columns = Some cols, mappings = MObj (m1 @ m2)\<rparr> = Some out"
    by simp
  with \<open>data \<noteq> Rows []\<close> obtain ts where
    ts: "collect_transformations cols (m1 @ m2) [CopyId] = Some ts"
    and out: "out = (case data of Rows rs \<Rightarrow> Rows (map (convert ts) rs)
                      | Record r \<Rightarrow> Record (convert ts r))"
    by (auto simp: mapColumnNames_def split: option.splits)
  have "\<forall>r. lookup_prop (convert ts r) w = None"
    using lookup_convert_absent [OF ts \<open>w \<noteq> ''id''\<close> \<open>w \<notin> fst ` set (m1 @ m2)\<close>] by blast
  with out show "\<exists>f. (\<forall>r. lookup_prop (f r) w = None)
            \<and> out = (case data of Rows rs \<Rightarrow> Rows (map f rs) | Record r \<Rightarrow> Record (f r))"
    by blast
next
  assume "\<not> isOptional cols w" and "data \<noteq> Rows []"
  moreover have "(w, GCols []) \<in> set (m1 @ (w, GCols []) # m2)" by simp
  ultimately show "mapColumnNames data
      \<lparr>columns = Some cols, mappings = MObj (m1 @ (w, GCols []) # m2)\<rparr> = None"
    using collect_required_unmapped [of w "GCols []" "m1 @ (w, GCols []) # m2" cols "[CopyId]"]
    by (simp add: mapColumnNames_def unmapped_def)
qed

text \<open>The theorem at the declaration \<^verbatim>\<open>["A", {name: "B", optional: true}]\<close>: the mapping
  \<^verbatim>\<open>{A: "colX", B: []}\<close> leaves \<^verbatim>\<open>B\<close> out, the mapping \<^verbatim>\<open>{A: [], B: "colX"}\<close> gives
  \<^verbatim>\<open>null\<close>.\<close>

theorem C10_empty_sequence_unmapped_witness:
  "mapColumnNames (Record [(''id'', VNum 1), (''colX'', VNum 5)])
     \<lparr>columns = Some [ColName ''A'', ColObj ''B'' True],
      mappings = MObj [(''A'', GCol ''colX''), (''B'', GCols [])]\<rparr>
     = Some (Record [(''id'', VNum 1), (''A'', VNum 5)])
   \<and> (\<exists>f. (\<forall>r. lookup_prop (f r) ''B'' = None)
          \<and> Record [(''id'', VNum 1), (''A'', VNum 5)]
              = Record (f [(''id'', VNum 1), (''colX'', VNum 5)]))
   \<and> mapColumnNames (Record [(''id'', VNum 1), (''colX'', VNum 5)])
     \<lparr>columns = Some [ColName ''A'', ColObj ''B'' True],
      mappings = MObj [(''A'', GCols []), (''B'', GCol ''colX'')]\<rparr>
     = None"
proof -
  have o: "isOptional [ColName ''A'', ColObj ''B'' True] ''B''"
    by (simp add: isOptional_def)
  have r: "\<not> isOptional [ColName ''A'', ColObj ''B'' True] ''A''"
    by (simp add: isOptional_def)
  have d: "Record [(''id'', VNum 1), (''colX'', VNum 5)] \<noteq> Rows []" by simp
  have i: "''B'' \<noteq> ''id''" by simp
  have n: "''B'' \<notin> fst ` set ([(''A'', GCol ''colX'')] @ [])" by simp
  have e: "mapColumnNames (Record [(''id'', VNum 1), (''colX'', VNum 5)])
     \<lparr>columns = Some [ColName ''A'', ColObj ''B'' True],
      mappings = MObj ([(''A'', GCol ''colX'')] @ [])\<rparr>
     = Some (Record [(''id'', VNum 1), (''A'', VNum 5)])"
    by (simp add: mapColumnNames_def convert_def get_prop_def lookup_prop_def)
  note T1 = C10_empty_sequence_unmapped
         [of "Record [(''id'', VNum 1), (''colX'', VNum 5)]"
             "[ColName ''A'', ColObj ''B'' True]" "[(''A'', GCol ''colX'')]" "''B''" "[]"
             "Record [(''id'', VNum 1), (''A'', VNum 5)]"]
  note T2 = C10_empty_sequence_unmapped
         [of "Record [(''id'', VNum 1), (''colX'', VNum 5)]"
             "[ColName ''A'', ColObj ''B'' True]" "[]" "''A''" "[(''B'', GCol ''colX'')]"
             "Record []"]
  have 1: "mapColumnNames (Record [(''id'', VNum 1), (''colX'', VNum 5)])
     \<lparr>columns = Some [ColName ''A'', ColObj ''B'' True],
      mappings = MObj ([(''A'', GCol ''colX'')] @ (''B'', GCols []) # [])\<rparr>
     = Some (Record [(''id'', VNum 1), (''A'', VNum 5)])"
    using T1 [THEN conjunct2, THEN conjunct1, rule_format, OF o] e by simp
  have 2: "\<exists>f. (\<forall>r. lookup_prop (f r) ''B'' = None)
          \<and> Record [(''id'', VNum 1), (''A'', VNum 5)]
              = (case Record [(''id'', VNum 1), (''colX'', VNum 5)] of
                   Rows rs \<Rightarrow> Rows (map f rs) | Record r \<Rightarrow> Record (f r))"
    using T1 [THEN conjunct2, THEN conjunct2, THEN conjunct1, rule_format, OF o i n 1 d] .
  have 3: "mapColumnNames (Record [(''id'', VNum 1), (''colX'', VNum 5)])
     \<lparr>columns = Some [ColName ''A'', ColObj ''B'' True],
      mappings = MObj ([] @ (''A'', GCols []) # [(''B'', GCol ''colX'')])\<rparr>
     = None"
    using T2 [THEN conjunct2, THEN conjunct2, THEN conjunct2, rule_format, OF r d] .
  from 1 2 3 show ?thesis by simp
qed

section \<open>Properties of the store\<close>

lemma cell_at_append:
  "a < length h \<Longrightarrow> cell_at (h @ ext) a = cell_at h a"
  by (simp add: cell_at_def nth_append)

lemma cell_at_Some_less: "cell_at h a = Some c \<Longrightarrow> a < length h"
  by (simp add: cell_at_def split: if_splits)

lemma read_slot_append:
  assumes "read_slot h sl = Some g"
  shows "read_slot (h @ ext) sl = Some g"
proof (cases sl)
  case (SArr a)
  with assms obtain c where c: "cell_at h a = Some c"
    by (auto split: option.splits)
  from cell_at_Some_less [OF c] have "cell_at (h @ ext) a = cell_at h a"
    by (rule cell_at_append)
  with assms SArr show ?thesis by simp
qed (use assms in auto)

lemma read_slots_append:
  "read_slots h ps = Some m \<Longrightarrow> read_slots (h @ ext) ps = Some m"
proof (induction ps arbitrary: m)
  case Nil
  then show ?case by simp
next
  case (Cons p ps)
  obtain k sl where p: "p = (k, sl)" by (cases p)
  from Cons.prems p obtain g m' where
    g: "read_slot h sl = Some g" and m': "read_slots h ps = Some m'" and m: "m = (k, g) # m'"
    by (auto split: option.splits)
  from read_slot_append [OF g] Cons.IH [OF m'] p m show ?case by simp
qed

lemma JSON_stringify_append:
  assumes "JSON_stringify h a = Some m"
  shows "JSON_stringify (h @ ext) a = Some m"
proof -
  from assms obtain ps where
    c: "cell_at h a = Some (ObjCell ps)" and r: "read_slots h ps = Some m"
    by (auto simp: JSON_stringify_def split: option.splits cell.splits)
  from cell_at_Some_less [OF c] have "cell_at (h @ ext) a = cell_at h a"
    by (rule cell_at_append)
  with c read_slots_append [OF r] show ?thesis by (simp add: JSON_stringify_def)
qed

lemma cells_of_append:
  "a < length h \<Longrightarrow> cells_of (h @ ext) a = cells_of h a"
  by (simp add: cells_of_def cell_at_append)

lemma alloc_slots_sound:
  "alloc_slots h m = (h', ps) \<Longrightarrow>
   (\<exists>ext. h' = h @ ext) \<and> read_slots h' ps = Some m
   \<and> (\<forall>x \<in> set (slot_addrs ps). length h \<le> x \<and> x < length h')"
proof (induction h m arbitrary: h' ps rule: alloc_slots.induct)
  case (1 h)
  then show ?case by simp
next
  case (2 h k m)
  then show ?case by (auto split: prod.splits)
next
  case (3 h k c m)
  then show ?case by (auto split: prod.splits)
next
  case (4 h k cs m)
  from "4.prems" obtain ps' where
    a: "alloc_slots (h @ [ArrCell cs]) m = (h', ps')" and ps: "ps = (k, SArr (length h)) # ps'"
    by (auto split: prod.splits)
  from "4.IH" [OF a] obtain ext where
    e: "h' = (h @ [ArrCell cs]) @ ext" and r: "read_slots h' ps' = Some m"
    and b: "\<forall>x \<in> set (slot_addrs ps'). length (h @ [ArrCell cs]) \<le> x \<and> x < length h'"
    by blast
  from e have c: "cell_at h' (length h) = Some (ArrCell cs)"
    by (simp add: cell_at_def nth_append)
  from e have "\<exists>ext'. h' = h @ ext'" by simp
  moreover from c r ps have "read_slots h' ps = Some ((k, GCols cs) # m)" by simp
  moreover from b e ps have "\<forall>x \<in> set (slot_addrs ps). length h \<le> x \<and> x < length h'"
    by auto
  ultimately show ?case by blast
qed

lemma JSON_parse_sound:
  assumes "JSON_parse h m = (h', a)"
  shows "\<exists>ext. h' = h @ ext" and "JSON_stringify h' a = Some m"
    and "length h \<le> a" and "a < length h'"
    and "\<forall>x \<in> set (cells_of h' a). length h \<le> x \<and> x < length h'"
proof -
  obtain h1 ps where al: "alloc_slots h m = (h1, ps)" by (cases "alloc_slots h m")
  with assms have h': "h' = h1 @ [ObjCell ps]" and a: "a = length h1"
    by (simp_all add: JSON_parse_def)
  from alloc_slots_sound [OF al] obtain ext where
    e: "h1 = h @ ext" and r: "read_slots h1 ps = Some m"
    and b: "\<forall>x \<in> set (slot_addrs ps). length h \<le> x \<and> x < length h1"
    by blast
  from h' a have c: "cell_at h' a = Some (ObjCell ps)" by (simp add: cell_at_def)
  from e h' show "\<exists>ext. h' = h @ ext" by simp
  from c read_slots_append [OF r, of "[ObjCell ps]"] h'
  show "JSON_stringify h' a = Some m" by (simp add: JSON_stringify_def)
  from a e show "length h \<le> a" by simp
  from a h' show "a < length h'" by simp
  from c b a e h' show "\<forall>x \<in> set (cells_of h' a). length h \<le> x \<and> x < length h'"
    by (auto simp: cells_of_def)
qed

lemma take_mutate:
  "\<forall>w \<in> set ws. n \<le> fst w \<Longrightarrow> take n (mutate h ws) = take n h"
  unfolding mutate_def by (induction ws arbitrary: h) auto

lemma JSON_stringify_take:
  assumes "JSON_stringify h a = Some m" and "take (length h) h2 = h"
  shows "JSON_stringify h2 a = Some m"
proof -
  from assms(2) have "h2 = h @ drop (length h) h2"
    by (metis append_take_drop_id)
  with JSON_stringify_append [OF assms(1)] show ?thesis by metis
qed

lemma slot_addrs_in_heap:
  "read_slots h ps = Some m \<Longrightarrow> \<forall>x \<in> set (slot_addrs ps). x < length h"
proof (induction ps arbitrary: m)
  case Nil
  then show ?case by simp
next
  case (Cons p ps)
  obtain k sl where p: "p = (k, sl)" by (cases p)
  from Cons.prems p obtain g m' where
    g: "read_slot h sl = Some g" and m': "read_slots h ps = Some m'"
    by (auto split: option.splits)
  from g have "\<forall>x \<in> set (slot_addrs [(k, sl)]). x < length h"
    by (cases sl) (auto dest: cell_at_Some_less split: option.splits)
  moreover have "slot_addrs ((k, sl) # ps) = slot_addrs [(k, sl)] @ slot_addrs ps"
    by (cases sl) auto
  ultimately show ?case using Cons.IH [OF m'] p by auto
qed

lemma cells_of_in_heap:
  assumes "JSON_stringify h a = Some m"
  shows "\<forall>x \<in> set (cells_of h a). x < length h"
proof -
  from assms obtain ps where
    c: "cell_at h a = Some (ObjCell ps)" and r: "read_slots h ps = Some m"
    by (auto simp: JSON_stringify_def split: option.splits cell.splits)
  from c slot_addrs_in_heap [OF r] cell_at_Some_less [OF c] show ?thesis
    by (simp add: cells_of_def)
qed

section \<open>Properties of the mapping cache\<close>

lemma return_mappings_ref:
  assumes "mappingsCache s = CRef a" and "JSON_stringify (heap s) a = Some m"
  shows "\<exists>ext a'. return_mappings c s =
            s\<lparr>heap := heap s @ ext,
              effects := effects s @ [Callback c (RRef a')]\<rparr>
          \<and> JSON_stringify (heap s @ ext) a' = Some m
          \<and> (\<forall>x \<in> set (cells_of (heap s @ ext) a'). length (heap s) \<le> x)"
proof -
  obtain h' a' where p: "JSON_parse (heap s) m = (h', a')"
    by (cases "JSON_parse (heap s) m")
  from JSON_parse_sound(1) [OF p] obtain ext where e: "h' = heap s @ ext" by blast
  from assms p have "return_mappings c s =
      s\<lparr>heap := h', effects := effects s @ [Callback c (RRef a')]\<rparr>"
    by (simp add: return_mappings_def emit_def)
  with e JSON_parse_sound(2) [OF p] JSON_parse_sound(5) [OF p] show ?thesis by blast
qed

lemma return_mappings_null:
  assumes "mappingsCache s = CNull \<or> mappingsCache s = CUndefined"
  shows "return_mappings c s = s\<lparr>effects := effects s @ [Callback c RNull]\<rparr>"
  using assms by (auto simp: return_mappings_def emit_def)

lemma ret_value_ref:
  "JSON_stringify h a = Some m \<Longrightarrow> ret_value h (RRef a) = MObj m"
  by (simp add: ret_value_def deref_def)

lemma resume_all_ref:
  assumes "mappingsCache s = CRef a" and "JSON_stringify (heap s) a = Some m"
  shows "\<exists>ext new. resume_all ws s = s\<lparr>heap := heap s @ ext, effects := effects s @ new\<rparr>
          \<and> map (callback_of (heap s @ ext)) new = map (\<lambda>c. Some (c, MObj m)) ws
          \<and> (\<forall>c a'. Callback c (RRef a') \<in> set new \<longrightarrow>
                JSON_stringify (heap s @ ext) a' = Some m
                \<and> (\<forall>x \<in> set (cells_of (heap s @ ext) a'). length (heap s) \<le> x))"
  using assms
proof (induction ws arbitrary: s)
  case Nil
  have "resume_all [] s = s\<lparr>heap := heap s @ [], effects := effects s @ []\<rparr>"
    by (simp add: resume_all_def)
  then show ?case by fastforce
next
  case (Cons c ws)
  from return_mappings_ref [OF Cons.prems, of c] obtain ext1 a1 where
    r: "return_mappings c s =
          s\<lparr>heap := heap s @ ext1,
            effects := effects s @ [Callback c (RRef a1)]\<rparr>"
    and j1: "JSON_stringify (heap s @ ext1) a1 = Some m"
    and f1: "\<forall>x \<in> set (cells_of (heap s @ ext1) a1). length (heap s) \<le> x"
    by blast
  let ?s1 = "return_mappings c s"
  from r Cons.prems(1) have c1: "mappingsCache ?s1 = CRef a" by simp
  from r have h1: "heap ?s1 = heap s @ ext1" by simp
  from r have e1: "effects ?s1 = effects s @ [Callback c (RRef a1)]" by simp
  from h1 JSON_stringify_append [OF Cons.prems(2)] have s1: "JSON_stringify (heap ?s1) a = Some m"
    by simp
  from Cons.IH [OF c1 s1] obtain ext2 new2 where
    r2: "resume_all ws ?s1 = ?s1\<lparr>heap := heap ?s1 @ ext2, effects := effects ?s1 @ new2\<rparr>"
    and m2: "map (callback_of (heap ?s1 @ ext2)) new2 = map (\<lambda>c. Some (c, MObj m)) ws"
    and p2: "\<forall>c a'. Callback c (RRef a') \<in> set new2 \<longrightarrow>
                JSON_stringify (heap ?s1 @ ext2) a' = Some m
                \<and> (\<forall>x \<in> set (cells_of (heap ?s1 @ ext2) a'). length (heap ?s1) \<le> x)"
    by blast
  let ?ext = "ext1 @ ext2"
  let ?new = "Callback c (RRef a1) # new2"
  have j1': "JSON_stringify (heap s @ ?ext) a1 = Some m"
    using JSON_stringify_append [OF j1, of ext2] by simp
  have "a1 < length (heap s @ ext1)"
    using j1 by (auto simp: JSON_stringify_def dest: cell_at_Some_less split: option.splits)
  then have cl: "cells_of (heap s @ ?ext) a1 = cells_of (heap s @ ext1) a1"
    using cells_of_append [of a1 "heap s @ ext1" ext2] by simp
  have A: "resume_all (c # ws) s = s\<lparr>heap := heap s @ ?ext, effects := effects s @ ?new\<rparr>"
  proof -
    have "resume_all (c # ws) s = resume_all ws ?s1" by (simp add: resume_all_def)
    also have "\<dots> = ?s1\<lparr>heap := heap ?s1 @ ext2, effects := effects ?s1 @ new2\<rparr>" by (rule r2)
    also have "\<dots> = s\<lparr>heap := heap s @ ?ext, effects := effects s @ ?new\<rparr>"
      unfolding h1 e1 by (subst r) simp
    finally show ?thesis .
  qed
  have B: "map (callback_of (heap s @ ?ext)) ?new = map (\<lambda>c. Some (c, MObj m)) (c # ws)"
    using m2 h1 j1' by (simp add: ret_value_ref)
  have C: "\<forall>c a'. Callback c (RRef a') \<in> set ?new \<longrightarrow>
                JSON_stringify (heap s @ ?ext) a' = Some m
                \<and> (\<forall>x \<in> set (cells_of (heap s @ ?ext) a'). length (heap s) \<le> x)"
  proof (intro allI impI)
    fix c' a'
    assume "Callback c' (RRef a') \<in> set ?new"
    then consider "a' = a1" | "Callback c' (RRef a') \<in> set new2" by auto
    then show "JSON_stringify (heap s @ ?ext) a' = Some m
                \<and> (\<forall>x \<in> set (cells_of (heap s @ ?ext) a'). length (heap s) \<le> x)"
    proof cases
      case 1
      with j1' cl f1 show ?thesis by simp
    next
      case 2
      with p2 h1 show ?thesis by fastforce
    qed
  qed
  from A B C show ?case by blast
qed

lemma resume_all_null:
  assumes "mappingsCache s = CNull \<or> mappingsCache s = CUndefined"
  shows "resume_all ws s =
           s\<lparr>effects := effects s @ map (\<lambda>c. Callback c RNull) ws\<rparr>"
  using assms
proof (induction ws arbitrary: s)
  case Nil
  then show ?case by (simp add: resume_all_def)
next
  case (Cons c ws)
  let ?s1 = "return_mappings c s"
  from return_mappings_null [OF Cons.prems, of c] have
    r: "?s1 = s\<lparr>effects := effects s @ [Callback c RNull]\<rparr>" .
  with Cons.prems have "mappingsCache ?s1 = CNull \<or> mappingsCache ?s1 = CUndefined" by simp
  from Cons.IH [OF this] have
    "resume_all ws ?s1 =
       ?s1\<lparr>effects := effects ?s1 @ map (\<lambda>c. Callback c RNull) ws\<rparr>" .
  moreover have "resume_all (c # ws) s = resume_all ws ?s1" by (simp add: resume_all_def)
  ultimately show ?case by (simp add: r)
qed

lemma getMappingsIfChanged_active:
  assumes "activeRefreshReq s"
    and "truthy (get_prop data ''mappingsChange'') \<or> mappingsCache s = CUndefined"
  shows "getMappingsIfChanged data caller s = s\<lparr>refresh_waiters := refresh_waiters s @ [caller]\<rparr>"
  using assms by (auto simp: getMappingsIfChanged_def)

lemma getMappingsIfChanged_idle:
  assumes "\<not> activeRefreshReq s"
    and "truthy (get_prop data ''mappingsChange'') \<or> mappingsCache s = CUndefined"
  shows "getMappingsIfChanged data caller s =
           s\<lparr>activeRefreshReq := True, refresh_waiters := refresh_waiters s @ [caller],
             mappings_in_flight := mappings_in_flight s + 1,
             effects := effects s @ [Mappings]\<rparr>"
  using assms by (auto simp: getMappingsIfChanged_def emit_def)

lemma getMappingsIfChanged_cached:
  assumes "\<not> truthy (get_prop data ''mappingsChange'')" and "mappingsCache s \<noteq> CUndefined"
  shows "getMappingsIfChanged data caller s = return_mappings caller s"
  using assms by (simp add: getMappingsIfChanged_def)

lemma issue_active:
  assumes "activeRefreshReq s"
    and "\<forall>c \<in> set calls. truthy (get_prop (fst c) ''mappingsChange'') \<or> mappingsCache s = CUndefined"
  shows "issue calls s = s\<lparr>refresh_waiters := refresh_waiters s @ map snd calls\<rparr>"
  using assms
proof (induction calls arbitrary: s)
  case Nil
  then show ?case by (simp add: issue_def)
next
  case (Cons c calls)
  let ?s1 = "getMappingsIfChanged (fst c) (snd c) s"
  from Cons.prems(2) have
    "truthy (get_prop (fst c) ''mappingsChange'') \<or> mappingsCache s = CUndefined" by auto
  from getMappingsIfChanged_active [OF Cons.prems(1) this] have
    s1: "?s1 = s\<lparr>refresh_waiters := refresh_waiters s @ [snd c]\<rparr>" .
  with Cons.prems have "activeRefreshReq ?s1"
    and "\<forall>c \<in> set calls. truthy (get_prop (fst c) ''mappingsChange'') \<or> mappingsCache ?s1 = CUndefined"
    by auto
  from Cons.IH [OF this] have
    "issue calls ?s1 = ?s1\<lparr>refresh_waiters := refresh_waiters ?s1 @ map snd calls\<rparr>" .
  moreover have "issue (c # calls) s = issue calls ?s1" by (simp add: issue_def)
  ultimately show ?case by (simp add: s1)
qed

lemma issue_idle:
  assumes "\<not> activeRefreshReq s" and "calls \<noteq> []"
    and "\<forall>c \<in> set calls. truthy (get_prop (fst c) ''mappingsChange'') \<or> mappingsCache s = CUndefined"
  shows "issue calls s =
           s\<lparr>activeRefreshReq := True, refresh_waiters := refresh_waiters s @ map snd calls,
             mappings_in_flight := mappings_in_flight s + 1,
             effects := effects s @ [Mappings]\<rparr>"
proof -
  from assms(2) obtain c rest where calls: "calls = c # rest" by (cases calls) auto
  let ?s1 = "getMappingsIfChanged (fst c) (snd c) s"
  from assms(3) calls have
    "truthy (get_prop (fst c) ''mappingsChange'') \<or> mappingsCache s = CUndefined" by auto
  from getMappingsIfChanged_idle [OF assms(1) this] have
    s1: "?s1 = s\<lparr>activeRefreshReq := True, refresh_waiters := refresh_waiters s @ [snd c],
             mappings_in_flight := mappings_in_flight s + 1,
             effects := effects s @ [Mappings]\<rparr>" .
  with assms(3) calls have "activeRefreshReq ?s1"
    and "\<forall>c \<in> set rest. truthy (get_prop (fst c) ''mappingsChange'') \<or> mappingsCache ?s1 = CUndefined"
    by auto
  from issue_active [OF this] have
    "issue rest ?s1 = ?s1\<lparr>refresh_waiters := refresh_waiters ?s1 @ map snd rest\<rparr>" .
  moreover have "issue calls s = issue rest ?s1" by (simp add: issue_def calls)
  ultimately show ?thesis by (simp add: s1 calls)
qed

lemma mappings_resolved_callbacks:
  "\<exists>new. effects (mappings_resolved answer s) = effects s @ new
     \<and> map (callback_of (heap (mappings_resolved answer s))) new
         = map (\<lambda>c. Some (c, answer_value answer)) (refresh_waiters s)
     \<and> \<not> activeRefreshReq (mappings_resolved answer s)
     \<and> mappings_in_flight (mappings_resolved answer s) = mappings_in_flight s - 1
     \<and> refresh_waiters (mappings_resolved answer s) = []"
proof (cases answer)
  case None
  let ?s2 = "s\<lparr>mappingsCache := CNull, activeRefreshReq := False,
               mappings_in_flight := mappings_in_flight s - 1, refresh_waiters := []\<rparr>"
  have m: "mappings_resolved answer s = resume_all (refresh_waiters s) ?s2"
    by (simp add: mappings_resolved_def None)
  have "mappingsCache ?s2 = CNull \<or> mappingsCache ?s2 = CUndefined" by simp
  from resume_all_null [OF this, of "refresh_waiters s"] m
  have "mappings_resolved answer s =
          ?s2\<lparr>effects := effects ?s2 @
                 map (\<lambda>c. Callback c RNull) (refresh_waiters s)\<rparr>"
    by simp
  then show ?thesis
    by (simp add: answer_value_def None ret_value_def comp_def)
next
  case (Some m)
  obtain h' a where p: "JSON_parse (heap s) m = (h', a)" by (cases "JSON_parse (heap s) m")
  let ?s2 = "s\<lparr>heap := h', mappingsCache := CRef a, activeRefreshReq := False,
               mappings_in_flight := mappings_in_flight s - 1, refresh_waiters := []\<rparr>"
  have m: "mappings_resolved answer s = resume_all (refresh_waiters s) ?s2"
    by (simp add: mappings_resolved_def Some p)
  have c: "mappingsCache ?s2 = CRef a" by simp
  have j: "JSON_stringify (heap ?s2) a = Some m" using JSON_parse_sound(2) [OF p] by simp
  from resume_all_ref [OF c j, of "refresh_waiters s"] obtain ext new where
    r: "resume_all (refresh_waiters s) ?s2 =
          ?s2\<lparr>heap := heap ?s2 @ ext, effects := effects ?s2 @ new\<rparr>"
    and cb: "map (callback_of (heap ?s2 @ ext)) new
               = map (\<lambda>c. Some (c, MObj m)) (refresh_waiters s)"
    by blast
  from m r have e: "mappings_resolved answer s =
      ?s2\<lparr>heap := heap ?s2 @ ext, effects := effects ?s2 @ new\<rparr>" by simp
  have "effects (mappings_resolved answer s) = effects s @ new" by (subst e) simp
  moreover have "heap (mappings_resolved answer s) = heap ?s2 @ ext" by (subst e) simp
  moreover have "\<not> activeRefreshReq (mappings_resolved answer s)" by (subst e) simp
  moreover have "mappings_in_flight (mappings_resolved answer s) = mappings_in_flight s - 1"
    by (subst e) simp
  moreover have "refresh_waiters (mappings_resolved answer s) = []" by (subst e) simp
  ultimately show ?thesis using cb by (simp add: answer_value_def Some)
qed

section \<open>Properties of dispatch and of ready\<close>

lemma run_handler_frame:
  "\<exists>rw tw n new. run_handler h msg s =
       s\<lparr>record_waiters := rw, table_waiters := tw, next_request := n,
         effects := effects s @ new\<rparr>
     \<and> list_all listener_effect new"
proof -
  show ?thesis
  proof (cases h)
    case (RecordHandler cb)
    show ?thesis
    proof (cases "\<not> truthy (get_prop msg ''tableId'') \<or> \<not> truthy (get_prop msg ''rowId'')")
      case True
      with RecordHandler have "run_handler h msg s = s" by (simp add: onRecord_listener_def)
      then have
        "run_handler h msg s =
           s\<lparr>record_waiters := record_waiters s, table_waiters := table_waiters s,
             next_request := next_request s, effects := effects s @ []\<rparr>
         \<and> list_all listener_effect []"
        by simp
      then show ?thesis by - ((rule exI)+, assumption)
    next
      case False
      with RecordHandler have
        "run_handler h msg s =
           s\<lparr>record_waiters := record_waiters s @ [(next_request s, cb, msg)],
             table_waiters := table_waiters s, next_request := next_request s + 1,
             effects := effects s
                          @ [FetchSelectedRecord (next_request s) (get_prop msg ''rowId'')]\<rparr>
         \<and> list_all listener_effect
              [FetchSelectedRecord (next_request s) (get_prop msg ''rowId'')]"
        by (simp add: onRecord_listener_def emit_def)
      then show ?thesis by - ((rule exI)+, assumption)
    qed
  next
    case (RecordsHandler cb)
    show ?thesis
    proof (cases "\<not> truthy (get_prop msg ''tableId'') \<or> \<not> truthy (get_prop msg ''dataChange'')")
      case True
      with RecordsHandler have "run_handler h msg s = s" by (simp add: onRecords_listener_def)
      then have
        "run_handler h msg s =
           s\<lparr>record_waiters := record_waiters s, table_waiters := table_waiters s,
             next_request := next_request s, effects := effects s @ []\<rparr>
         \<and> list_all listener_effect []"
        by simp
      then show ?thesis by - ((rule exI)+, assumption)
    next
      case False
      with RecordsHandler have
        "run_handler h msg s =
           s\<lparr>record_waiters := record_waiters s,
             table_waiters := table_waiters s @ [(next_request s, cb, msg)],
             next_request := next_request s + 1,
             effects := effects s @ [FetchSelectedTable (next_request s)]\<rparr>
         \<and> list_all listener_effect [FetchSelectedTable (next_request s)]"
        by (simp add: onRecords_listener_def emit_def)
      then show ?thesis by - ((rule exI)+, assumption)
    qed
  next
    case (OptionsHandler cb)
    show ?thesis
    proof (cases "truthy (get_prop msg ''settings'')")
      case False
      with OptionsHandler have "run_handler h msg s = s" by (simp add: onOptions_listener_def)
      then have
        "run_handler h msg s =
           s\<lparr>record_waiters := record_waiters s, table_waiters := table_waiters s,
             next_request := next_request s, effects := effects s @ []\<rparr>
         \<and> list_all listener_effect []"
        by simp
      then show ?thesis by - ((rule exI)+, assumption)
    next
      case True
      let ?e = "OptionsCallback cb
                 (if truthy (get_prop msg ''options'') then get_prop msg ''options'' else VNull)
                 (get_prop msg ''settings'')"
      from True OptionsHandler have
        "run_handler h msg s =
           s\<lparr>record_waiters := record_waiters s, table_waiters := table_waiters s,
             next_request := next_request s, effects := effects s @ [?e]\<rparr>
         \<and> list_all listener_effect [?e]"
        by (simp add: onOptions_listener_def emit_def)
      then show ?thesis by - ((rule exI)+, assumption)
    qed
  qed
qed

lemma handlers_frame:
  "\<exists>rw tw n new.
     foldl (\<lambda>s' h. run_handler h msg (emit (HandlerInvoked h msg) s')) s hs =
       s\<lparr>record_waiters := rw, table_waiters := tw, next_request := n,
         effects := effects s @ new\<rparr>
     \<and> list_all listener_effect new \<and> (\<forall>h \<in> set hs. HandlerInvoked h msg \<in> set new)"
proof (induction hs arbitrary: s)
  case Nil
  have "foldl (\<lambda>s' h. run_handler h msg (emit (HandlerInvoked h msg) s')) s [] =
          s\<lparr>record_waiters := record_waiters s, table_waiters := table_waiters s,
            next_request := next_request s, effects := effects s @ []\<rparr>
        \<and> list_all listener_effect []
        \<and> (\<forall>h \<in> set []. HandlerInvoked h msg \<in> set [])"
    by simp
  then show ?case by - ((rule exI)+, assumption)
next
  case (Cons h hs)
  let ?s0 = "emit (HandlerInvoked h msg) s"
  let ?s1 = "run_handler h msg ?s0"
  from run_handler_frame [of h msg ?s0] obtain rw1 tw1 n1 new1 where
    r1: "?s1 = ?s0\<lparr>record_waiters := rw1, table_waiters := tw1, next_request := n1,
                    effects := effects ?s0 @ new1\<rparr>"
    and l1: "list_all listener_effect new1" by (elim exE conjE)
  from Cons.IH [of ?s1] obtain rw2 tw2 n2 new2 where
    r2: "foldl (\<lambda>s' h. run_handler h msg (emit (HandlerInvoked h msg) s')) ?s1 hs =
           ?s1\<lparr>record_waiters := rw2, table_waiters := tw2, next_request := n2,
               effects := effects ?s1 @ new2\<rparr>"
    and l2: "list_all listener_effect new2"
    and i2: "\<forall>h \<in> set hs. HandlerInvoked h msg \<in> set new2" by (elim exE conjE)
  let ?new = "HandlerInvoked h msg # new1 @ new2"
  have "foldl (\<lambda>s' h. run_handler h msg (emit (HandlerInvoked h msg) s')) s (h # hs) =
          ?s1\<lparr>record_waiters := rw2, table_waiters := tw2, next_request := n2,
              effects := effects ?s1 @ new2\<rparr>"
    using r2 by simp
  also have "\<dots> = s\<lparr>record_waiters := rw2, table_waiters := tw2, next_request := n2,
                      effects := effects s @ ?new\<rparr>"
    by (subst r1, subst r1) (simp add: emit_def)
  finally have e: "foldl (\<lambda>s' h. run_handler h msg (emit (HandlerInvoked h msg) s')) s (h # hs) =
      s\<lparr>record_waiters := rw2, table_waiters := tw2, next_request := n2,
        effects := effects s @ ?new\<rparr>" .
  from l1 l2 have l: "list_all listener_effect ?new" by simp
  from i2 have i: "\<forall>h' \<in> set (h # hs). HandlerInvoked h' msg \<in> set ?new" by auto
  from e l i have
    "foldl (\<lambda>s' h. run_handler h msg (emit (HandlerInvoked h msg) s')) s (h # hs) =
       s\<lparr>record_waiters := rw2, table_waiters := tw2, next_request := n2,
         effects := effects s @ ?new\<rparr>
     \<and> list_all listener_effect ?new
     \<and> (\<forall>h' \<in> set (h # hs). HandlerInvoked h' msg \<in> set ?new)"
    by (intro conjI)
  then show ?case by - ((rule exI)+, assumption)
qed

lemma dispatch_frame:
  "\<exists>rw tw n new. dispatch msg s =
       s\<lparr>record_waiters := rw, table_waiters := tw, next_request := n,
         effects := effects s @ new\<rparr>
     \<and> list_all listener_effect new \<and> (\<forall>h \<in> set (handlers s). HandlerInvoked h msg \<in> set new)"
  unfolding dispatch_def by (rule handlers_frame)

lemma dispatch_all_frame:
  "\<exists>rw tw n new. foldl (\<lambda>s' msg. dispatch msg s') s msgs =
       s\<lparr>record_waiters := rw, table_waiters := tw, next_request := n,
         effects := effects s @ new\<rparr>
     \<and> list_all listener_effect new"
proof (induction msgs arbitrary: s)
  case Nil
  have "foldl (\<lambda>s' msg. dispatch msg s') s [] =
          s\<lparr>record_waiters := record_waiters s, table_waiters := table_waiters s,
            next_request := next_request s, effects := effects s @ []\<rparr>
        \<and> list_all listener_effect []"
    by simp
  then show ?case by - ((rule exI)+, assumption)
next
  case (Cons msg msgs)
  let ?s1 = "dispatch msg s"
  from dispatch_frame [of msg s] obtain rw1 tw1 n1 new1 where
    r1: "?s1 = s\<lparr>record_waiters := rw1, table_waiters := tw1, next_request := n1,
                  effects := effects s @ new1\<rparr>"
    and l1: "list_all listener_effect new1" by (elim exE conjE)
  from Cons.IH [of ?s1] obtain rw2 tw2 n2 new2 where
    r2: "foldl (\<lambda>s' msg. dispatch msg s') ?s1 msgs =
           ?s1\<lparr>record_waiters := rw2, table_waiters := tw2, next_request := n2,
               effects := effects ?s1 @ new2\<rparr>"
    and l2: "list_all listener_effect new2" by (elim exE conjE)
  have "foldl (\<lambda>s' msg. dispatch msg s') s (msg # msgs) =
          ?s1\<lparr>record_waiters := rw2, table_waiters := tw2, next_request := n2,
              effects := effects ?s1 @ new2\<rparr>"
    using r2 by simp
  also have "\<dots> = s\<lparr>record_waiters := rw2, table_waiters := tw2, next_request := n2,
                      effects := effects s @ new1 @ new2\<rparr>"
    by (subst r1, subst r1) simp
  finally have e: "foldl (\<lambda>s' msg. dispatch msg s') s (msg # msgs) =
      s\<lparr>record_waiters := rw2, table_waiters := tw2, next_request := n2,
        effects := effects s @ new1 @ new2\<rparr>" .
  from l1 l2 have l: "list_all listener_effect (new1 @ new2)" by simp
  from e l have
    "foldl (\<lambda>s' msg. dispatch msg s') s (msg # msgs) =
       s\<lparr>record_waiters := rw2, table_waiters := tw2, next_request := n2,
         effects := effects s @ new1 @ new2\<rparr>
     \<and> list_all listener_effect (new1 @ new2)"
    by (intro conjI)
  then show ?case by - ((rule exI)+, assumption)
qed

lemma processIncoming_frame:
  "\<exists>rw tw n new. processIncoming s =
       s\<lparr>processing_incoming := True, inactive_queue := [], record_waiters := rw,
         table_waiters := tw, next_request := n,
         effects := effects s @ ProcessIncoming # new\<rparr>
     \<and> list_all listener_effect new"
proof -
  let ?s0 = "emit ProcessIncoming (s\<lparr>processing_incoming := True, inactive_queue := []\<rparr>)"
  from dispatch_all_frame [of ?s0 "inactive_queue s"] obtain rw tw n new where
    r: "foldl (\<lambda>s' msg. dispatch msg s') ?s0 (inactive_queue s) =
          ?s0\<lparr>record_waiters := rw, table_waiters := tw, next_request := n,
              effects := effects ?s0 @ new\<rparr>"
    and l: "list_all listener_effect new" by (elim exE conjE)
  have "processIncoming s =
      ?s0\<lparr>record_waiters := rw, table_waiters := tw, next_request := n,
          effects := effects ?s0 @ new\<rparr>"
    using r by (simp add: processIncoming_def)
  then have "processIncoming s =
       s\<lparr>processing_incoming := True, inactive_queue := [], record_waiters := rw,
         table_waiters := tw, next_request := n,
         effects := effects s @ ProcessIncoming # new\<rparr>"
    by (simp add: emit_def)
  with l have
    "processIncoming s =
       s\<lparr>processing_incoming := True, inactive_queue := [], record_waiters := rw,
         table_waiters := tw, next_request := n,
         effects := effects s @ ProcessIncoming # new\<rparr>
     \<and> list_all listener_effect new"
    by (intro conjI)
  then show ?thesis by - ((rule exI)+, assumption)
qed

lemma ready_frame:
  "\<exists>rw tw n new. ready st s =
       s\<lparr>processing_incoming := True, inactive_queue := [], record_waiters := rw,
         table_waiters := tw, ready_waiters := ready_waiters s @ [st], next_request := n,
         effects := effects s @ registration st @ ProcessIncoming # new @ [SendReadyMessage]\<rparr>
     \<and> list_all listener_effect new"
proof -
  let ?s1 = "s\<lparr>effects := effects s @ registration st\<rparr>"
  from processIncoming_frame [of ?s1] obtain rw tw n new where
    r: "processIncoming ?s1 =
          ?s1\<lparr>processing_incoming := True, inactive_queue := [], record_waiters := rw,
              table_waiters := tw, next_request := n,
              effects := effects ?s1 @ ProcessIncoming # new\<rparr>"
    and l: "list_all listener_effect new" by (elim exE conjE)
  have "ready st s =
      (let s2 = processIncoming ?s1; s3 = emit SendReadyMessage s2
       in s3\<lparr>ready_waiters := ready_waiters s3 @ [st]\<rparr>)"
    by (auto simp: ready_def registration_def emit_def split: option.splits)
  also have "\<dots> = s\<lparr>processing_incoming := True, inactive_queue := [], record_waiters := rw,
         table_waiters := tw, ready_waiters := ready_waiters s @ [st], next_request := n,
         effects := effects s @ registration st @ ProcessIncoming # new @ [SendReadyMessage]\<rparr>"
    by (simp add: Let_def r emit_def)
  finally have "ready st s =
       s\<lparr>processing_incoming := True, inactive_queue := [], record_waiters := rw,
         table_waiters := tw, ready_waiters := ready_waiters s @ [st], next_request := n,
         effects := effects s @ registration st @ ProcessIncoming # new @ [SendReadyMessage]\<rparr>" .
  with l have
    "ready st s =
       s\<lparr>processing_incoming := True, inactive_queue := [], record_waiters := rw,
         table_waiters := tw, ready_waiters := ready_waiters s @ [st], next_request := n,
         effects := effects s @ registration st @ ProcessIncoming # new @ [SendReadyMessage]\<rparr>
     \<and> list_all listener_effect new"
    by (intro conjI)
  then show ?thesis by - ((rule exI)+, assumption)
qed

section \<open>Invariants of the process\<close>

lemma return_mappings_refresh_fields:
  "activeRefreshReq (return_mappings c s) = activeRefreshReq s
   \<and> mappings_in_flight (return_mappings c s) = mappings_in_flight s"
  by (simp add: return_mappings_def emit_def split: cache_ref.splits option.splits prod.splits)

lemma getMappingsIfChanged_single_flight:
  "single_flight s \<Longrightarrow> single_flight (getMappingsIfChanged data caller s)"
  using return_mappings_refresh_fields [of caller s]
  by (auto simp: getMappingsIfChanged_def single_flight_def emit_def Let_def)

lemma reject_all:
  "foldl (\<lambda>s' caller. emit UnhandledRejection s') s ws =
     s\<lparr>effects := effects s @ replicate (length ws) UnhandledRejection\<rparr>"
proof (induction ws arbitrary: s)
  case Nil
  then show ?case by simp
next
  case (Cons w ws)
  have "foldl (\<lambda>s' caller. emit UnhandledRejection s') (emit UnhandledRejection s) ws =
          (emit UnhandledRejection s)
            \<lparr>effects := effects (emit UnhandledRejection s)
                         @ replicate (length ws) UnhandledRejection\<rparr>"
    by (rule Cons.IH)
  then show ?case by (simp add: emit_def)
qed

lemma mappings_rejected_eq:
  "mappings_rejected s =
     s\<lparr>activeRefreshReq := False, refresh_waiters := [],
       mappings_in_flight := mappings_in_flight s - 1,
       effects := effects s @ replicate (length (refresh_waiters s)) UnhandledRejection\<rparr>"
  by (simp add: mappings_rejected_def reject_all)

lemma step_single_flight:
  assumes "single_flight s"
  shows "single_flight (step decodeObject s e)"
proof (cases e)
  case (CallReady st)
  from ready_frame [of st s] obtain rw tw n new where
    "ready st s =
       s\<lparr>processing_incoming := True, inactive_queue := [], record_waiters := rw,
         table_waiters := tw,
         ready_waiters := ready_waiters s @ [st], next_request := n,
         effects := effects s @ registration st @ ProcessIncoming # new @ [SendReadyMessage]\<rparr>"
    by blast
  with assms CallReady show ?thesis by (simp add: single_flight_def)
next
  case (CallOnRecord cb)
  with assms show ?thesis by (simp add: single_flight_def onRecord_def)
next
  case (CallOnRecords cb)
  with assms show ?thesis by (simp add: single_flight_def onRecords_def)
next
  case (CallOnOptions cb)
  with assms show ?thesis by (simp add: single_flight_def onOptions_def)
next
  case (Receive msg)
  from dispatch_frame [of msg s] obtain rw tw n new where
    "dispatch msg s = s\<lparr>record_waiters := rw, table_waiters := tw, next_request := n, effects := effects s @ new\<rparr>"
    by blast
  with assms Receive show ?thesis by (simp add: single_flight_def receiveMessage_def)
next
  case ReadyMessageSent
  with assms show ?thesis
    by (simp add: single_flight_def ready_resume_def emit_def Let_def
             split: list.splits option.splits)
next
  case ReadyMessageFailed
  with assms show ?thesis
    by (simp add: single_flight_def emit_def split: list.splits)
next
  case ConfigureResolved
  with assms show ?thesis by (simp add: single_flight_def configure_resolved_def)
next
  case (ConfigureRejected err)
  with assms show ?thesis by (simp add: single_flight_def configure_rejected_def emit_def)
next
  case (RecordFetched rid raw)
  show ?thesis
  proof (cases "waiter_of rid (record_waiters s)")
    case None
    with assms RecordFetched show ?thesis by simp
  next
    case (Some w)
    from assms have "single_flight (s\<lparr>record_waiters := drop_waiter rid (record_waiters s)\<rparr>)"
      by (simp add: single_flight_def)
    from getMappingsIfChanged_single_flight [OF this] Some RecordFetched show ?thesis
      by (simp add: onRecord_resume_def)
  qed
next
  case (RecordFetchFailed rid)
  with assms show ?thesis
    by (simp add: single_flight_def emit_def split: option.splits)
next
  case (TableFetched rid raw)
  show ?thesis
  proof (cases "waiter_of rid (table_waiters s)")
    case None
    with assms TableFetched show ?thesis by simp
  next
    case (Some w)
    from assms have "single_flight (s\<lparr>table_waiters := drop_waiter rid (table_waiters s)\<rparr>)"
      by (simp add: single_flight_def)
    with getMappingsIfChanged_single_flight Some TableFetched show ?thesis
      by (simp add: onRecords_resume_def Let_def split: option.splits)
  qed
next
  case (TableFetchFailed rid)
  with assms show ?thesis
    by (simp add: single_flight_def emit_def split: option.splits)
next
  case (MappingsResolved answer)
  show ?thesis
  proof (cases "mappings_in_flight s = 0")
    case True
    with assms MappingsResolved show ?thesis by simp
  next
    case False
    with assms have "mappings_in_flight s = 1"
      by (simp add: single_flight_def split: if_splits)
    with mappings_resolved_callbacks [of answer s] False MappingsResolved show ?thesis
      by (auto simp: single_flight_def)
  qed
next
  case MappingsRejected
  show ?thesis
  proof (cases "mappings_in_flight s = 0")
    case True
    with assms MappingsRejected show ?thesis by simp
  next
    case False
    with assms have "mappings_in_flight s = 1"
      by (simp add: single_flight_def split: if_splits)
    with False MappingsRejected show ?thesis
      by (simp add: single_flight_def mappings_rejected_eq)
  qed
qed

lemma run_single_flight:
  "single_flight s \<Longrightarrow> single_flight (run decodeObject s es)"
  unfolding run_def by (induction es arbitrary: s) (auto simp: step_single_flight)

lemma foldl_field:
  "(\<And>s x. g (f s x) = g s) \<Longrightarrow> g (foldl f s xs) = g s"
  by (induction xs arbitrary: s) auto

lemma return_mappings_gate:
  "processing_incoming (return_mappings c s) = processing_incoming s"
  by (simp add: return_mappings_def emit_def split: cache_ref.splits option.splits prod.splits)

lemma resume_all_gate:
  "processing_incoming (resume_all ws s) = processing_incoming s"
  unfolding resume_all_def
  by (rule foldl_field [where g = processing_incoming]) (rule return_mappings_gate)

lemma getMappingsIfChanged_gate:
  "processing_incoming (getMappingsIfChanged data caller s) = processing_incoming s"
  by (simp add: getMappingsIfChanged_def return_mappings_gate emit_def Let_def)

lemma mappings_resolved_gate:
  "processing_incoming (mappings_resolved answer s) = processing_incoming s"
  by (simp add: mappings_resolved_def resume_all_gate Let_def split: option.splits prod.splits)

lemma step_processing_incoming:
  assumes "processing_incoming s"
  shows "processing_incoming (step decodeObject s e)"
proof (cases e)
  case (CallReady st)
  from ready_frame [of st s] obtain rw tw n new where
    "ready st s =
       s\<lparr>processing_incoming := True, inactive_queue := [], record_waiters := rw,
         table_waiters := tw,
         ready_waiters := ready_waiters s @ [st], next_request := n,
         effects := effects s @ registration st @ ProcessIncoming # new @ [SendReadyMessage]\<rparr>"
    by blast
  with CallReady show ?thesis by simp
next
  case (Receive msg)
  from dispatch_frame [of msg s] obtain rw tw n new where
    "dispatch msg s = s\<lparr>record_waiters := rw, table_waiters := tw, next_request := n, effects := effects s @ new\<rparr>"
    by blast
  with assms Receive show ?thesis by (simp add: receiveMessage_def)
next
  case (RecordFetched rid raw)
  with assms show ?thesis
    by (simp add: onRecord_resume_def getMappingsIfChanged_gate split: option.splits)
next
  case (TableFetched rid raw)
  with assms show ?thesis
    by (simp add: onRecords_resume_def getMappingsIfChanged_gate Let_def split: option.splits)
next
  case (MappingsResolved answer)
  with assms show ?thesis by (simp add: mappings_resolved_gate)
next
  case MappingsRejected
  with assms show ?thesis by (simp add: mappings_rejected_eq)
qed (use assms in \<open>auto simp: onRecord_def onRecords_def onOptions_def ready_resume_def
       emit_def Let_def configure_resolved_def configure_rejected_def
       split: list.splits option.splits\<close>)

subsection \<open>Calls of mappings() and requests in flight\<close>

lemma listener_effects_not_mappings:
  "list_all listener_effect new \<Longrightarrow> filter is_mappings_call new = []"
proof (induction new)
  case Nil
  then show ?case by simp
next
  case (Cons e new)
  then show ?case by (cases e) auto
qed

lemma registration_not_mappings: "filter is_mappings_call (registration st) = []"
  by (simp add: registration_def split: option.splits)

lemma return_mappings_calls:
  "mappings_calls (return_mappings c s) = mappings_calls s
   \<and> mappings_in_flight (return_mappings c s) = mappings_in_flight s"
  by (simp add: mappings_calls_def return_mappings_def emit_def
           split: cache_ref.splits option.splits prod.splits)

lemma getMappingsIfChanged_calls:
  "mappings_calls (getMappingsIfChanged data c s) + mappings_in_flight s
     = mappings_calls s + mappings_in_flight (getMappingsIfChanged data c s)"
proof (cases "truthy (get_prop data ''mappingsChange'') \<or> mappingsCache s = CUndefined")
  case True
  then show ?thesis
    by (cases "activeRefreshReq s")
       (simp_all add: getMappingsIfChanged_active getMappingsIfChanged_idle mappings_calls_def)
next
  case False
  then have "getMappingsIfChanged data c s = return_mappings c s"
    by (simp add: getMappingsIfChanged_cached)
  with return_mappings_calls [of c s] show ?thesis by simp
qed

lemma step_mappings_calls:
  assumes "\<not> is_mappings_answer e"
  shows "mappings_calls (step decodeObject s e) + mappings_in_flight s
           = mappings_calls s + mappings_in_flight (step decodeObject s e)"
proof (cases e)
  case (CallReady st)
  from ready_frame [of st s] obtain rw tw n new where
    r: "ready st s =
       s\<lparr>processing_incoming := True, inactive_queue := [], record_waiters := rw,
         table_waiters := tw, ready_waiters := ready_waiters s @ [st], next_request := n,
         effects := effects s @ registration st @ ProcessIncoming # new @ [SendReadyMessage]\<rparr>"
    and l: "list_all listener_effect new" by (elim exE conjE)
  from r CallReady listener_effects_not_mappings [OF l] registration_not_mappings [of st]
  show ?thesis by (simp add: mappings_calls_def)
next
  case (CallOnRecord cb)
  then show ?thesis by (simp add: mappings_calls_def onRecord_def)
next
  case (CallOnRecords cb)
  then show ?thesis by (simp add: mappings_calls_def onRecords_def)
next
  case (CallOnOptions cb)
  then show ?thesis by (simp add: mappings_calls_def onOptions_def)
next
  case (Receive msg)
  from dispatch_frame [of msg s] obtain rw tw n new where
    d: "dispatch msg s = s\<lparr>record_waiters := rw, table_waiters := tw, next_request := n,
                            effects := effects s @ new\<rparr>"
    and l: "list_all listener_effect new" by (elim exE conjE)
  from d Receive listener_effects_not_mappings [OF l] show ?thesis
    by (simp add: mappings_calls_def receiveMessage_def)
next
  case ReadyMessageSent
  then show ?thesis
    by (simp add: mappings_calls_def ready_resume_def emit_def Let_def
             split: list.splits option.splits)
next
  case ReadyMessageFailed
  then show ?thesis by (simp add: mappings_calls_def emit_def split: list.splits)
next
  case ConfigureResolved
  then show ?thesis by (simp add: mappings_calls_def configure_resolved_def)
next
  case (ConfigureRejected err)
  then show ?thesis by (simp add: mappings_calls_def configure_rejected_def emit_def)
next
  case (RecordFetched rid raw)
  show ?thesis
  proof (cases "waiter_of rid (record_waiters s)")
    case None
    with RecordFetched show ?thesis by simp
  next
    case (Some w)
    let ?s0 = "s\<lparr>record_waiters := drop_waiter rid (record_waiters s)\<rparr>"
    from getMappingsIfChanged_calls
           [of "snd (snd w)" "RecordCaller (fst (snd w)) (mapValues raw decodeObject)" ?s0]
         Some RecordFetched
    show ?thesis by (simp add: onRecord_resume_def mappings_calls_def)
  qed
next
  case (RecordFetchFailed rid)
  then show ?thesis by (simp add: mappings_calls_def emit_def split: option.splits)
next
  case (TableFetched rid raw)
  show ?thesis
  proof (cases "waiter_of rid (table_waiters s)")
    case None
    with TableFetched show ?thesis by simp
  next
    case (Some w)
    let ?s0 = "s\<lparr>table_waiters := drop_waiter rid (table_waiters s)\<rparr>"
    show ?thesis
    proof (cases "lookup_prop (mapValues raw (map decodeObject)) ''id''")
      case None
      with Some TableFetched show ?thesis
        by (simp add: onRecords_resume_def mappings_calls_def)
    next
      case (Some ids)
      let ?rows = "map (row_at (mapValues raw (map decodeObject)) ids) [0..<length ids]"
      from getMappingsIfChanged_calls
             [of "snd (snd w)" "RecordsCaller (fst (snd w)) ?rows" ?s0]
           Some \<open>waiter_of rid (table_waiters s) = Some w\<close> TableFetched
      show ?thesis by (simp add: onRecords_resume_def mappings_calls_def)
    qed
  qed
next
  case (TableFetchFailed rid)
  then show ?thesis by (simp add: mappings_calls_def emit_def split: option.splits)
next
  case (MappingsResolved answer)
  with assms show ?thesis by simp
next
  case MappingsRejected
  with assms show ?thesis by simp
qed

lemma run_mappings_calls:
  "\<forall>e \<in> set es. \<not> is_mappings_answer e \<Longrightarrow>
   mappings_calls (run decodeObject s es) + mappings_in_flight s
     = mappings_calls s + mappings_in_flight (run decodeObject s es)"
proof (induction es arbitrary: s)
  case Nil
  then show ?case by (simp add: run_def)
next
  case (Cons e es)
  from Cons.prems have e: "\<not> is_mappings_answer e" and es: "\<forall>e \<in> set es. \<not> is_mappings_answer e"
    by simp_all
  have r: "run decodeObject s (e # es) = run decodeObject (step decodeObject s e) es"
    by (simp add: run_def)
  from step_mappings_calls [OF e, of decodeObject s] Cons.IH [OF es, of "step decodeObject s e"]
  show ?case unfolding r by simp
qed

section \<open>Single-flight refresh\<close>

text \<open>
  Claim C1 (single-flight mapping refresh): when two or more calls of
  \<^verbatim>\<open>getMappingsIfChanged\<close> that need a refresh (the cache was never populated, or the
  event carries \<^verbatim>\<open>mappingsChange\<close>) occur before the fetch resolves, exactly one call of
  the host's \<^verbatim>\<open>mappings()\<close> is made, and every such caller observes the value that this
  fetch resolved to; at most one refresh request is in flight at any time.

  From a state with no active request and nobody waiting, the calls \<open>calls\<close> together
  have the single effect \<open>Mappings\<close> and leave one request in flight. When the host
  answers, nothing is added before the callbacks, and the callers are called back in
  the order of their calls, each with a value equal to the host's answer. In every
  state that the process reaches from its initial state, at most one request is in
  flight, and a run in which the host has not answered yet contains at most one call
  of \<^verbatim>\<open>mappings()\<close>, whatever the events and their order.
\<close>

theorem C1_single_flight:
  assumes "\<not> activeRefreshReq s" and "refresh_waiters s = []" and "calls \<noteq> []"
    and "\<forall>c \<in> set calls.
           truthy (get_prop (fst c) ''mappingsChange'') \<or> mappingsCache s = CUndefined"
  shows "effects (issue calls s) = effects s @ [Mappings]
       \<and> mappings_in_flight (issue calls s) = mappings_in_flight s + 1
       \<and> take (length (effects s) + 1) (effects (mappings_resolved answer (issue calls s)))
           = effects s @ [Mappings]
       \<and> map (callback_of (heap (mappings_resolved answer (issue calls s))))
             (drop (length (effects s) + 1) (effects (mappings_resolved answer (issue calls s))))
           = map (\<lambda>c. Some (snd c, answer_value answer)) calls
       \<and> mappings_in_flight (run decodeObject initial es) \<le> 1
       \<and> ((\<forall>e \<in> set es. \<not> is_mappings_answer e) \<longrightarrow>
            mappings_calls (run decodeObject initial es) \<le> 1)"
proof -
  let ?s1 = "issue calls s"
  let ?s2 = "mappings_resolved answer ?s1"
  from issue_idle [OF assms(1) assms(3) assms(4)] assms(2) have
    s1: "?s1 = s\<lparr>activeRefreshReq := True, refresh_waiters := map snd calls,
                  mappings_in_flight := mappings_in_flight s + 1,
                  effects := effects s @ [Mappings]\<rparr>"
    by simp
  have e1: "effects ?s1 = effects s @ [Mappings]" by (subst s1) simp
  have f1: "mappings_in_flight ?s1 = mappings_in_flight s + 1" by (subst s1) simp
  have w1: "refresh_waiters ?s1 = map snd calls" by (subst s1) simp
  from mappings_resolved_callbacks [of answer ?s1] obtain new where
    e2: "effects ?s2 = effects ?s1 @ new"
    and c2: "map (callback_of (heap ?s2)) new
               = map (\<lambda>c. Some (c, answer_value answer)) (refresh_waiters ?s1)"
    by blast
  from e2 e1 have t: "take (length (effects s) + 1) (effects ?s2) = effects s @ [Mappings]"
    by simp
  from e2 e1 have "drop (length (effects s) + 1) (effects ?s2) = new" by simp
  with c2 w1 have d: "map (callback_of (heap ?s2)) (drop (length (effects s) + 1) (effects ?s2))
      = map (\<lambda>c. Some (snd c, answer_value answer)) calls"
    by (simp add: comp_def)
  have "single_flight initial" by (simp add: single_flight_def initial_def)
  from run_single_flight [OF this, of decodeObject es]
  have i: "mappings_in_flight (run decodeObject initial es) \<le> 1"
    by (simp add: single_flight_def split: if_splits)
  have c: "(\<forall>e \<in> set es. \<not> is_mappings_answer e) \<longrightarrow>
             mappings_calls (run decodeObject initial es) \<le> 1"
  proof
    assume "\<forall>e \<in> set es. \<not> is_mappings_answer e"
    from run_mappings_calls [OF this, of decodeObject initial] i
    show "mappings_calls (run decodeObject initial es) \<le> 1"
      by (simp add: mappings_calls_def initial_def)
  qed
  from e1 f1 t d i c show ?thesis by (intro conjI)
qed

text \<open>The theorem at two calls in the initial state, one by a listener of \<^verbatim>\<open>onRecord\<close>
  because the cache was never populated, one by a listener of \<^verbatim>\<open>onRecords\<close> with
  \<^verbatim>\<open>mappingsChange\<close>, answered with \<^verbatim>\<open>{A: ["c1"]}\<close>; and at a run in which one
  notification starts both listeners.\<close>

theorem C1_single_flight_witness:
  "effects (issue [([], RecordCaller 1 [(''id'', VNum 1)]),
                   ([(''mappingsChange'', VBool True)], RecordsCaller 2 [[(''id'', VNum 2)]])]
              initial)
     = [Mappings]
   \<and> map (callback_of (heap (mappings_resolved (Some [(''A'', GCols [''c1''])])
            (issue [([], RecordCaller 1 [(''id'', VNum 1)]),
                    ([(''mappingsChange'', VBool True)], RecordsCaller 2 [[(''id'', VNum 2)]])]
               initial))))
        (drop 1 (effects (mappings_resolved (Some [(''A'', GCols [''c1''])])
            (issue [([], RecordCaller 1 [(''id'', VNum 1)]),
                    ([(''mappingsChange'', VBool True)], RecordsCaller 2 [[(''id'', VNum 2)]])]
               initial))))
     = [Some (RecordCaller 1 [(''id'', VNum 1)], MObj [(''A'', GCols [''c1''])]),
        Some (RecordsCaller 2 [[(''id'', VNum 2)]], MObj [(''A'', GCols [''c1''])])]
   \<and> mappings_in_flight
        (run (\<lambda>v. v) initial
           [CallOnRecord 1, CallOnRecords 2, CallReady None,
            Receive [(''tableId'', VStr ''T''), (''rowId'', VNum 1), (''dataChange'', VBool True)],
            RecordFetched 0 [(''id'', VNum 1)],
            TableFetched 1 [(''id'', [VNum 1, VNum 2])]]) \<le> 1
   \<and> mappings_calls
        (run (\<lambda>v. v) initial
           [CallOnRecord 1, CallOnRecords 2, CallReady None,
            Receive [(''tableId'', VStr ''T''), (''rowId'', VNum 1), (''dataChange'', VBool True)],
            RecordFetched 0 [(''id'', VNum 1)],
            TableFetched 1 [(''id'', [VNum 1, VNum 2])]]) \<le> 1"
proof -
  let ?calls = "[([], RecordCaller 1 [(''id'', VNum 1)]),
                 ([(''mappingsChange'', VBool True)], RecordsCaller 2 [[(''id'', VNum 2)]])]"
  have a: "\<not> activeRefreshReq initial" by (simp add: initial_def)
  have w: "refresh_waiters initial = []" by (simp add: initial_def)
  have n: "?calls \<noteq> []" by simp
  have r: "\<forall>c \<in> set ?calls.
             truthy (get_prop (fst c) ''mappingsChange'') \<or> mappingsCache initial = CUndefined"
    by (simp add: initial_def)
  have e: "effects initial = []" by (simp add: initial_def)
  show ?thesis
    using C1_single_flight [OF a w n r, of "Some [(''A'', GCols [''c1''])]" "\<lambda>v. v"
      "[CallOnRecord 1, CallOnRecords 2, CallReady None,
        Receive [(''tableId'', VStr ''T''), (''rowId'', VNum 1), (''dataChange'', VBool True)],
        RecordFetched 0 [(''id'', VNum 1)],
        TableFetched 1 [(''id'', [VNum 1, VNum 2])]]"]
    by (simp add: e answer_value_def)
qed

section \<open>Independence of the returned copy\<close>

lemma copy_independent:
  assumes base: "JSON_stringify hb a = Some m"
    and copy: "JSON_stringify (hb @ ext) a' = Some m"
    and fresh: "\<forall>x \<in> set (cells_of (hb @ ext) a'). length hb \<le> x"
  shows "JSON_stringify (hb @ ext) a = Some m
       \<and> set (cells_of (hb @ ext) a') \<inter> set (cells_of (hb @ ext) a) = {}
       \<and> (\<forall>ws. (\<forall>w \<in> set ws. fst w \<in> set (cells_of (hb @ ext) a')) \<longrightarrow>
               JSON_stringify (mutate (hb @ ext) ws) a = Some m)"
proof (intro conjI allI impI)
  show "JSON_stringify (hb @ ext) a = Some m" using base by (rule JSON_stringify_append)
next
  from base have "a < length hb"
    by (auto simp: JSON_stringify_def dest: cell_at_Some_less split: option.splits)
  then have "cells_of (hb @ ext) a = cells_of hb a" by (rule cells_of_append)
  with cells_of_in_heap [OF base] have "\<forall>x \<in> set (cells_of (hb @ ext) a). x < length hb"
    by simp
  with fresh show "set (cells_of (hb @ ext) a') \<inter> set (cells_of (hb @ ext) a) = {}"
    by fastforce
next
  fix ws :: "(addr \<times> cell) list"
  assume "\<forall>w \<in> set ws. fst w \<in> set (cells_of (hb @ ext) a')"
  with fresh have "\<forall>w \<in> set ws. length hb \<le> fst w" by blast
  from take_mutate [OF this, of "hb @ ext"] have "take (length hb) (mutate (hb @ ext) ws) = hb"
    by simp
  from JSON_stringify_take [OF base this] show "JSON_stringify (mutate (hb @ ext) ws) a = Some m" .
qed

lemma return_mappings_new_ref:
  assumes "Callback c' (RRef a')
             \<in> set (drop (length (effects s)) (effects (return_mappings c s)))"
  shows "\<exists>a m ext. mappingsCache s = CRef a \<and> JSON_stringify (heap s) a = Some m
           \<and> mappingsCache (return_mappings c s) = CRef a
           \<and> heap (return_mappings c s) = heap s @ ext
           \<and> JSON_stringify (heap s @ ext) a' = Some m
           \<and> (\<forall>x \<in> set (cells_of (heap s @ ext) a'). length (heap s) \<le> x)"
proof (cases "mappingsCache s")
  case CUndefined
  with assms show ?thesis by (simp add: return_mappings_def emit_def)
next
  case CNull
  with assms show ?thesis by (simp add: return_mappings_def emit_def)
next
  case (CRef a)
  show ?thesis
  proof (cases "JSON_stringify (heap s) a")
    case None
    with CRef assms show ?thesis by (simp add: return_mappings_def emit_def)
  next
    case (Some m)
    from return_mappings_ref [OF CRef Some, of c] obtain ext a1 where
      r: "return_mappings c s =
            s\<lparr>heap := heap s @ ext,
              effects := effects s @ [Callback c (RRef a1)]\<rparr>"
      and j: "JSON_stringify (heap s @ ext) a1 = Some m"
      and f: "\<forall>x \<in> set (cells_of (heap s @ ext) a1). length (heap s) \<le> x"
      by blast
    from assms have "a' = a1" by (subst (asm) r) simp
    moreover have "mappingsCache (return_mappings c s) = CRef a" by (subst r) (simp add: CRef)
    moreover have "heap (return_mappings c s) = heap s @ ext" by (subst r) simp
    ultimately show ?thesis using CRef Some j f by blast
  qed
qed

text \<open>
  Claim C7 (cache copy independence): every value other than \<^verbatim>\<open>null\<close> that
  \<^verbatim>\<open>getMappingsIfChanged\<close> returns is a deep, independent copy of the cached mapping: it
  is structurally equal to the cache entry at return time, and mutating it leaves the
  cached mapping unchanged.

  A call returns either at once (\<open>getMappingsIfChanged\<close>) or when the host answers
  (\<open>mappings_resolved\<close>); the returned reference \<open>a'\<close> is the one the callback receives.
  In the state \<open>s'\<close> after the return the cache refers to an object \<open>a\<close>, both objects
  read as the same mapping \<open>m\<close>, they share no cell, and after any sequence of writes
  to cells of the returned object the cached object still reads as \<open>m\<close>.
\<close>

theorem C7_cache_copy_independence:
  assumes "s' = getMappingsIfChanged data caller s \<or> s' = mappings_resolved answer s"
    and "Callback c (RRef a') \<in> set (drop (length (effects s)) (effects s'))"
  shows "\<exists>a m. mappingsCache s' = CRef a \<and> JSON_stringify (heap s') a = Some m
           \<and> JSON_stringify (heap s') a' = Some m
           \<and> set (cells_of (heap s') a') \<inter> set (cells_of (heap s') a) = {}
           \<and> (\<forall>ws. (\<forall>w \<in> set ws. fst w \<in> set (cells_of (heap s') a')) \<longrightarrow>
                   JSON_stringify (mutate (heap s') ws) a = Some m)"
  using assms(1)
proof
  assume g: "s' = getMappingsIfChanged data caller s"
  have r: "s' = return_mappings caller s"
  proof (rule ccontr)
    assume n: "s' \<noteq> return_mappings caller s"
    with g have "effects s' = effects s \<or> effects s' = effects s @ [Mappings]"
      by (auto simp: getMappingsIfChanged_def emit_def Let_def split: if_splits)
    with assms(2) show False by auto
  qed
  from return_mappings_new_ref [of c a' s caller] assms(2) r obtain a m ext where
    c: "mappingsCache s = CRef a" and b: "JSON_stringify (heap s) a = Some m"
    and c': "mappingsCache s' = CRef a" and h: "heap s' = heap s @ ext"
    and j: "JSON_stringify (heap s @ ext) a' = Some m"
    and f: "\<forall>x \<in> set (cells_of (heap s @ ext) a'). length (heap s) \<le> x"
    by blast
  from copy_independent [OF b j f] c' h j show ?thesis by simp
next
  assume g: "s' = mappings_resolved answer s"
  show ?thesis
  proof (cases answer)
    case None
    let ?s2 = "s\<lparr>mappingsCache := CNull, activeRefreshReq := False,
                 mappings_in_flight := mappings_in_flight s - 1, refresh_waiters := []\<rparr>"
    have "mappingsCache ?s2 = CNull \<or> mappingsCache ?s2 = CUndefined" by simp
    from resume_all_null [OF this, of "refresh_waiters s"] g None
    have "effects s' = effects s @
            map (\<lambda>c. Callback c RNull) (refresh_waiters s)"
      by (simp add: mappings_resolved_def)
    with assms(2) show ?thesis by auto
  next
    case (Some m)
    obtain h0 a where p: "JSON_parse (heap s) m = (h0, a)" by (cases "JSON_parse (heap s) m")
    let ?s2 = "s\<lparr>heap := h0, mappingsCache := CRef a, activeRefreshReq := False,
                 mappings_in_flight := mappings_in_flight s - 1, refresh_waiters := []\<rparr>"
    have m: "s' = resume_all (refresh_waiters s) ?s2"
      using g by (simp add: mappings_resolved_def Some p)
    have c: "mappingsCache ?s2 = CRef a" by simp
    have b: "JSON_stringify h0 a = Some m" using JSON_parse_sound(2) [OF p] .
    then have j: "JSON_stringify (heap ?s2) a = Some m" by simp
    from resume_all_ref [OF c j, of "refresh_waiters s"] obtain ext new where
      r: "resume_all (refresh_waiters s) ?s2 =
            ?s2\<lparr>heap := heap ?s2 @ ext, effects := effects ?s2 @ new\<rparr>"
      and pr: "\<forall>c a'. Callback c (RRef a') \<in> set new \<longrightarrow>
                JSON_stringify (heap ?s2 @ ext) a' = Some m
                \<and> (\<forall>x \<in> set (cells_of (heap ?s2 @ ext) a'). length (heap ?s2) \<le> x)"
      by blast
    from m r have e: "s' = ?s2\<lparr>heap := heap ?s2 @ ext, effects := effects ?s2 @ new\<rparr>" by simp
    have es: "effects s' = effects s @ new" by (subst e) simp
    have hs: "heap s' = h0 @ ext" by (subst e) simp
    have cs: "mappingsCache s' = CRef a" by (subst e) simp
    from assms(2) es have "Callback c (RRef a') \<in> set new" by simp
    with pr have j': "JSON_stringify (h0 @ ext) a' = Some m"
      and f: "\<forall>x \<in> set (cells_of (h0 @ ext) a'). length h0 \<le> x"
      by auto
    from copy_independent [OF b j' f] cs hs j' show ?thesis by simp
  qed
qed

text \<open>The theorem at a cache holding \<^verbatim>\<open>{A: ["c1"]}\<close>: the caller receives a copy at address
  3, and overwriting the copy's array and the copy itself leaves the cache as it was.\<close>

theorem C7_cache_copy_independence_witness:
  "mappingsCache
     (getMappingsIfChanged [] (RecordCaller 1 [(''id'', VNum 1)])
        (initial\<lparr>heap := [ArrCell [''c1''], ObjCell [(''A'', SArr 0)]],
                 mappingsCache := CRef 1\<rparr>)) = CRef 1
   \<and> effects
     (getMappingsIfChanged [] (RecordCaller 1 [(''id'', VNum 1)])
        (initial\<lparr>heap := [ArrCell [''c1''], ObjCell [(''A'', SArr 0)]],
                 mappingsCache := CRef 1\<rparr>)) = [Callback (RecordCaller 1 [(''id'', VNum 1)]) (RRef 3)]
   \<and> JSON_stringify
       (mutate
          (heap (getMappingsIfChanged [] (RecordCaller 1 [(''id'', VNum 1)])
             (initial\<lparr>heap := [ArrCell [''c1''], ObjCell [(''A'', SArr 0)]],
                      mappingsCache := CRef 1\<rparr>)))
          [(2, ArrCell [''c9'']), (3, ObjCell [])]) 1
       = Some [(''A'', GCols [''c1''])]"
proof -
  let ?s = "initial\<lparr>heap := [ArrCell [''c1''], ObjCell [(''A'', SArr 0)]],
                    mappingsCache := CRef 1\<rparr>"
  let ?s' = "getMappingsIfChanged [] (RecordCaller 1 [(''id'', VNum 1)]) ?s"
  have ev: "?s' = ?s\<lparr>heap := [ArrCell [''c1''], ObjCell [(''A'', SArr 0)],
                             ArrCell [''c1''], ObjCell [(''A'', SArr 2)]],
                    effects := [Callback (RecordCaller 1 [(''id'', VNum 1)]) (RRef 3)]\<rparr>"
    by (simp add: getMappingsIfChanged_def get_prop_def lookup_prop_def return_mappings_def
          JSON_stringify_def cell_at_def JSON_parse_def emit_def initial_def)
  have h1: "?s' = getMappingsIfChanged [] (RecordCaller 1 [(''id'', VNum 1)]) ?s
            \<or> ?s' = mappings_resolved None ?s" by simp
  have h2: "Callback (RecordCaller 1 [(''id'', VNum 1)]) (RRef 3)
              \<in> set (drop (length (effects ?s)) (effects ?s'))"
    by (subst ev) (simp add: initial_def)
  from C7_cache_copy_independence [OF h1 h2] obtain a m where
    c: "mappingsCache ?s' = CRef a" and j: "JSON_stringify (heap ?s') a = Some m"
    and i: "\<forall>ws. (\<forall>w \<in> set ws. fst w \<in> set (cells_of (heap ?s') 3)) \<longrightarrow>
                   JSON_stringify (mutate (heap ?s') ws) a = Some m"
    by blast
  have c1: "mappingsCache ?s' = CRef 1" by (subst ev) simp
  with c have a: "a = 1" by simp
  have "JSON_stringify (heap ?s') 1 = Some [(''A'', GCols [''c1''])]"
    by (subst ev) (simp add: JSON_stringify_def cell_at_def)
  with j a have m: "m = [(''A'', GCols [''c1''])]" by simp
  have "\<forall>w \<in> set [(2, ArrCell [''c9'']), (3, ObjCell [])]. fst w \<in> set (cells_of (heap ?s') 3)"
    by (subst ev) (simp add: cells_of_def cell_at_def)
  with i a m have "JSON_stringify (mutate (heap ?s') [(2, ArrCell [''c9'']), (3, ObjCell [])]) 1
       = Some [(''A'', GCols [''c1''])]" by blast
  moreover have "effects ?s' = [Callback (RecordCaller 1 [(''id'', VNum 1)]) (RRef 3)]"
    by (subst ev) simp
  ultimately show ?thesis using c1 by blast
qed

section \<open>The ready gate\<close>

lemma listener_effect_kind:
  "listener_effect e \<Longrightarrow> \<not> is_configure e \<and> \<not> is_rejection e \<and> e \<noteq> SendReadyMessage"
  by (cases e) auto

lemma listener_effects_kind:
  "list_all listener_effect new \<Longrightarrow>
   filter is_configure new = [] \<and> filter is_rejection new = [] \<and> SendReadyMessage \<notin> set new"
  by (induction new) (auto dest: listener_effect_kind)

lemma registration_kind:
  "filter is_configure (registration st) = [] \<and> filter is_rejection (registration st) = []
   \<and> SendReadyMessage \<notin> set (registration st)"
  by (simp add: registration_def split: option.splits)

text \<open>
  What a listener does with a message, seen from outside: the listener of \<^verbatim>\<open>onOptions\<close>
  calls its callback at once when the message has \<^verbatim>\<open>settings\<close>; the listeners of
  \<^verbatim>\<open>onRecord\<close> and \<^verbatim>\<open>onRecords\<close> ask the host for the record or the table and wait for the
  answer with their callback.
\<close>

lemma run_handler_reaches:
  "\<exists>new rw tw.
      effects (run_handler h msg s) = effects s @ new
    \<and> record_waiters (run_handler h msg s) = record_waiters s @ rw
    \<and> table_waiters (run_handler h msg s) = table_waiters s @ tw
    \<and> (\<forall>cb. h = OptionsHandler cb \<longrightarrow> truthy (get_prop msg ''settings'') \<longrightarrow>
           OptionsCallback cb
             (if truthy (get_prop msg ''options'') then get_prop msg ''options'' else VNull)
             (get_prop msg ''settings'') \<in> set new)
    \<and> (\<forall>cb. h = RecordHandler cb \<longrightarrow> truthy (get_prop msg ''tableId'') \<longrightarrow>
           truthy (get_prop msg ''rowId'') \<longrightarrow>
           (\<exists>rid. FetchSelectedRecord rid (get_prop msg ''rowId'') \<in> set new
                  \<and> (rid, cb, msg) \<in> set rw))
    \<and> (\<forall>cb. h = RecordsHandler cb \<longrightarrow> truthy (get_prop msg ''tableId'') \<longrightarrow>
           truthy (get_prop msg ''dataChange'') \<longrightarrow>
           (\<exists>rid. FetchSelectedTable rid \<in> set new \<and> (rid, cb, msg) \<in> set tw))"
proof (cases h)
  case (RecordHandler cb)
  then show ?thesis by (simp add: onRecord_listener_def emit_def)
next
  case (RecordsHandler cb)
  then show ?thesis by (simp add: onRecords_listener_def emit_def)
next
  case (OptionsHandler cb)
  then show ?thesis by (simp add: onOptions_listener_def emit_def)
qed

lemma handlers_reach:
  "\<exists>new rw tw.
      effects (foldl (\<lambda>s' h. run_handler h msg (emit (HandlerInvoked h msg) s')) s hs)
        = effects s @ new
    \<and> record_waiters (foldl (\<lambda>s' h. run_handler h msg (emit (HandlerInvoked h msg) s')) s hs)
        = record_waiters s @ rw
    \<and> table_waiters (foldl (\<lambda>s' h. run_handler h msg (emit (HandlerInvoked h msg) s')) s hs)
        = table_waiters s @ tw
    \<and> (\<forall>h \<in> set hs. HandlerInvoked h msg \<in> set new)
    \<and> (\<forall>cb. OptionsHandler cb \<in> set hs \<longrightarrow> truthy (get_prop msg ''settings'') \<longrightarrow>
           OptionsCallback cb
             (if truthy (get_prop msg ''options'') then get_prop msg ''options'' else VNull)
             (get_prop msg ''settings'') \<in> set new)
    \<and> (\<forall>cb. RecordHandler cb \<in> set hs \<longrightarrow> truthy (get_prop msg ''tableId'') \<longrightarrow>
           truthy (get_prop msg ''rowId'') \<longrightarrow>
           (\<exists>rid. FetchSelectedRecord rid (get_prop msg ''rowId'') \<in> set new
                  \<and> (rid, cb, msg) \<in> set rw))
    \<and> (\<forall>cb. RecordsHandler cb \<in> set hs \<longrightarrow> truthy (get_prop msg ''tableId'') \<longrightarrow>
           truthy (get_prop msg ''dataChange'') \<longrightarrow>
           (\<exists>rid. FetchSelectedTable rid \<in> set new \<and> (rid, cb, msg) \<in> set tw))"
proof (induction hs arbitrary: s)
  case Nil
  show ?case by simp
next
  case (Cons h hs)
  let ?F = "\<lambda>s' h. run_handler h msg (emit (HandlerInvoked h msg) s')"
  let ?s0 = "emit (HandlerInvoked h msg) s"
  let ?s1 = "run_handler h msg ?s0"
  from run_handler_reaches [of h msg ?s0] obtain new1 rw1 tw1 where
    e1: "effects ?s1 = effects ?s0 @ new1"
    and r1: "record_waiters ?s1 = record_waiters ?s0 @ rw1"
    and t1: "table_waiters ?s1 = table_waiters ?s0 @ tw1"
    and o1: "\<And>cb. h = OptionsHandler cb \<Longrightarrow> truthy (get_prop msg ''settings'') \<Longrightarrow>
           OptionsCallback cb
             (if truthy (get_prop msg ''options'') then get_prop msg ''options'' else VNull)
             (get_prop msg ''settings'') \<in> set new1"
    and f1: "\<And>cb. h = RecordHandler cb \<Longrightarrow> truthy (get_prop msg ''tableId'') \<Longrightarrow>
           truthy (get_prop msg ''rowId'') \<Longrightarrow>
           \<exists>rid. FetchSelectedRecord rid (get_prop msg ''rowId'') \<in> set new1
                  \<and> (rid, cb, msg) \<in> set rw1"
    and g1: "\<And>cb. h = RecordsHandler cb \<Longrightarrow> truthy (get_prop msg ''tableId'') \<Longrightarrow>
           truthy (get_prop msg ''dataChange'') \<Longrightarrow>
           \<exists>rid. FetchSelectedTable rid \<in> set new1 \<and> (rid, cb, msg) \<in> set tw1"
    by (elim exE conjE) blast
  from Cons.IH [of ?s1] obtain new2 rw2 tw2 where
    e2: "effects (foldl ?F ?s1 hs) = effects ?s1 @ new2"
    and r2: "record_waiters (foldl ?F ?s1 hs) = record_waiters ?s1 @ rw2"
    and t2: "table_waiters (foldl ?F ?s1 hs) = table_waiters ?s1 @ tw2"
    and i2: "\<And>h'. h' \<in> set hs \<Longrightarrow> HandlerInvoked h' msg \<in> set new2"
    and o2: "\<And>cb. OptionsHandler cb \<in> set hs \<Longrightarrow> truthy (get_prop msg ''settings'') \<Longrightarrow>
           OptionsCallback cb
             (if truthy (get_prop msg ''options'') then get_prop msg ''options'' else VNull)
             (get_prop msg ''settings'') \<in> set new2"
    and f2: "\<And>cb. RecordHandler cb \<in> set hs \<Longrightarrow> truthy (get_prop msg ''tableId'') \<Longrightarrow>
           truthy (get_prop msg ''rowId'') \<Longrightarrow>
           \<exists>rid. FetchSelectedRecord rid (get_prop msg ''rowId'') \<in> set new2
                  \<and> (rid, cb, msg) \<in> set rw2"
    and g2: "\<And>cb. RecordsHandler cb \<in> set hs \<Longrightarrow> truthy (get_prop msg ''tableId'') \<Longrightarrow>
           truthy (get_prop msg ''dataChange'') \<Longrightarrow>
           \<exists>rid. FetchSelectedTable rid \<in> set new2 \<and> (rid, cb, msg) \<in> set tw2"
    by (elim exE conjE) blast
  let ?new = "HandlerInvoked h msg # new1 @ new2"
  let ?rw = "rw1 @ rw2"
  let ?tw = "tw1 @ tw2"
  have e: "effects (foldl ?F s (h # hs)) = effects s @ ?new"
    using e1 e2 by (simp add: emit_def)
  have r: "record_waiters (foldl ?F s (h # hs)) = record_waiters s @ ?rw"
    using r1 r2 by (simp add: emit_def)
  have t: "table_waiters (foldl ?F s (h # hs)) = table_waiters s @ ?tw"
    using t1 t2 by (simp add: emit_def)
  have i: "\<forall>h' \<in> set (h # hs). HandlerInvoked h' msg \<in> set ?new"
    using i2 by auto
  have o: "\<forall>cb. OptionsHandler cb \<in> set (h # hs) \<longrightarrow> truthy (get_prop msg ''settings'') \<longrightarrow>
           OptionsCallback cb
             (if truthy (get_prop msg ''options'') then get_prop msg ''options'' else VNull)
             (get_prop msg ''settings'') \<in> set ?new"
    using o1 o2 by auto
  have f: "\<forall>cb. RecordHandler cb \<in> set (h # hs) \<longrightarrow> truthy (get_prop msg ''tableId'') \<longrightarrow>
           truthy (get_prop msg ''rowId'') \<longrightarrow>
           (\<exists>rid. FetchSelectedRecord rid (get_prop msg ''rowId'') \<in> set ?new
                  \<and> (rid, cb, msg) \<in> set ?rw)"
  proof (intro allI impI)
    fix cb
    assume m: "RecordHandler cb \<in> set (h # hs)"
      and a: "truthy (get_prop msg ''tableId'')" and b: "truthy (get_prop msg ''rowId'')"
    from m have "h = RecordHandler cb \<or> RecordHandler cb \<in> set hs" by auto
    then obtain rid where
      "(FetchSelectedRecord rid (get_prop msg ''rowId'') \<in> set new1 \<and> (rid, cb, msg) \<in> set rw1)
       \<or> (FetchSelectedRecord rid (get_prop msg ''rowId'') \<in> set new2
           \<and> (rid, cb, msg) \<in> set rw2)"
      using f1 [OF _ a b] f2 [OF _ a b] by blast
    then have "FetchSelectedRecord rid (get_prop msg ''rowId'') \<in> set ?new
                  \<and> (rid, cb, msg) \<in> set ?rw" by auto
    then show "\<exists>rid. FetchSelectedRecord rid (get_prop msg ''rowId'') \<in> set ?new
                  \<and> (rid, cb, msg) \<in> set ?rw" ..
  qed
  have g: "\<forall>cb. RecordsHandler cb \<in> set (h # hs) \<longrightarrow> truthy (get_prop msg ''tableId'') \<longrightarrow>
           truthy (get_prop msg ''dataChange'') \<longrightarrow>
           (\<exists>rid. FetchSelectedTable rid \<in> set ?new \<and> (rid, cb, msg) \<in> set ?tw)"
  proof (intro allI impI)
    fix cb
    assume m: "RecordsHandler cb \<in> set (h # hs)"
      and a: "truthy (get_prop msg ''tableId'')" and b: "truthy (get_prop msg ''dataChange'')"
    from m have "h = RecordsHandler cb \<or> RecordsHandler cb \<in> set hs" by auto
    then obtain rid where
      "(FetchSelectedTable rid \<in> set new1 \<and> (rid, cb, msg) \<in> set tw1)
       \<or> (FetchSelectedTable rid \<in> set new2 \<and> (rid, cb, msg) \<in> set tw2)"
      using g1 [OF _ a b] g2 [OF _ a b] by blast
    then have "FetchSelectedTable rid \<in> set ?new \<and> (rid, cb, msg) \<in> set ?tw" by auto
    then show "\<exists>rid. FetchSelectedTable rid \<in> set ?new \<and> (rid, cb, msg) \<in> set ?tw" ..
  qed
  from e r t i o f g show ?case
    by (intro exI [of _ ?new] exI [of _ ?rw] exI [of _ ?tw] conjI)
qed

lemma run_processing_incoming:
  "processing_incoming s \<Longrightarrow> processing_incoming (run decodeObject s es)"
  unfolding run_def by (induction es arbitrary: s) (simp_all add: step_processing_incoming)

text \<open>
  The claim C3 as stated says that no inbound message is dispatched to a handler of the
  widget before \<^verbatim>\<open>ready()\<close> is called. Nothing in the module holds a message back. In the
  run below the widget registers an \<^verbatim>\<open>onOptions\<close> callback and does not call \<^verbatim>\<open>ready()\<close>;
  the notification \<^verbatim>\<open>{settings: {}}\<close> is handed to the listener, and the callback is called
  with \<^verbatim>\<open>(null, {})\<close>.
\<close>

theorem C3_dispatch_before_ready:
  "effects (run (\<lambda>v. v) initial [CallOnOptions 7, Receive [(''settings'', VObj [])]])
   = [HandlerInvoked (OptionsHandler 7) [(''settings'', VObj [])],
      OptionsCallback 7 VNull (VObj [])]"
  by (simp add: run_def initial_def onOptions_def receiveMessage_def dispatch_def emit_def
      onOptions_listener_def get_prop_def lookup_prop_def)

text \<open>
  Claim C3, amended (dispatch and ready): the module does not gate inbound messages. The
  RPC object admits them from the moment the module is loaded, so a notification
  delivered before \<^verbatim>\<open>ready()\<close> reaches the handlers like one delivered after; that none is
  sent earlier is left to the host, which waits for the ready message. Within \<^verbatim>\<open>ready()\<close>,
  \<^verbatim>\<open>rpc.processIncoming()\<close> is called synchronously, before the ready message is sent (the
  first asynchronous step), so the gate is open when \<^verbatim>\<open>ready()\<close> returns, whatever it was
  before, and no later turn closes it. A notification delivered after \<^verbatim>\<open>ready()\<close> reaches
  every registered handler.

  In the statement: the gate is open after every run from the initial state, with or
  without a call of \<^verbatim>\<open>ready\<close>. The call \<open>ready st s\<close> returns with the gate open from every
  state \<open>s\<close>, and its effects end with \<^verbatim>\<open>sendReadyMessage\<close>, after \<^verbatim>\<open>processIncoming\<close>. No
  event closes an open gate. With the gate open, a received message is handed to every
  registered listener in the same turn, and the listener acts on it: the callback of
  \<^verbatim>\<open>onOptions\<close> is called with \<^verbatim>\<open>(msg.options || null, msg.settings)\<close> when \<^verbatim>\<open>msg.settings\<close>
  is truthy; the listener of \<^verbatim>\<open>onRecord\<close> asks for the record \<^verbatim>\<open>msg.rowId\<close> and waits for
  it with its callback when \<^verbatim>\<open>msg.tableId\<close> and \<^verbatim>\<open>msg.rowId\<close> are truthy; the listener of
  \<^verbatim>\<open>onRecords\<close> asks for the table and waits for it with its callback when \<^verbatim>\<open>msg.tableId\<close>
  and \<^verbatim>\<open>msg.dataChange\<close> are truthy.
\<close>

theorem C3_ready_admits_messages:
  "processing_incoming (run decodeObject initial es)
   \<and> processing_incoming (ready st s)
   \<and> (\<exists>new. effects (ready st s)
               = effects s @ registration st @ ProcessIncoming # new @ [SendReadyMessage]
             \<and> SendReadyMessage \<notin> set (registration st @ ProcessIncoming # new))
   \<and> (processing_incoming s \<longrightarrow> processing_incoming (step decodeObject s e))
   \<and> (processing_incoming s \<longrightarrow>
        (\<exists>new rw tw.
            effects (step decodeObject s (Receive msg)) = effects s @ new
          \<and> record_waiters (step decodeObject s (Receive msg)) = record_waiters s @ rw
          \<and> table_waiters (step decodeObject s (Receive msg)) = table_waiters s @ tw
          \<and> (\<forall>h \<in> set (handlers s). HandlerInvoked h msg \<in> set new)
          \<and> (\<forall>cb. OptionsHandler cb \<in> set (handlers s) \<longrightarrow>
                 truthy (get_prop msg ''settings'') \<longrightarrow>
                 OptionsCallback cb
                   (if truthy (get_prop msg ''options'') then get_prop msg ''options''
                    else VNull)
                   (get_prop msg ''settings'') \<in> set new)
          \<and> (\<forall>cb. RecordHandler cb \<in> set (handlers s) \<longrightarrow>
                 truthy (get_prop msg ''tableId'') \<longrightarrow> truthy (get_prop msg ''rowId'') \<longrightarrow>
                 (\<exists>rid. FetchSelectedRecord rid (get_prop msg ''rowId'') \<in> set new
                        \<and> (rid, cb, msg) \<in> set rw))
          \<and> (\<forall>cb. RecordsHandler cb \<in> set (handlers s) \<longrightarrow>
                 truthy (get_prop msg ''tableId'') \<longrightarrow>
                 truthy (get_prop msg ''dataChange'') \<longrightarrow>
                 (\<exists>rid. FetchSelectedTable rid \<in> set new \<and> (rid, cb, msg) \<in> set tw))))"
proof (intro conjI impI)
  have "processing_incoming initial" by (simp add: initial_def)
  then show "processing_incoming (run decodeObject initial es)"
    by (rule run_processing_incoming)
next
  from ready_frame [of st s] obtain rw tw n new where
    r: "ready st s =
       s\<lparr>processing_incoming := True, inactive_queue := [], record_waiters := rw,
         table_waiters := tw,
         ready_waiters := ready_waiters s @ [st], next_request := n,
         effects := effects s @ registration st @ ProcessIncoming # new @ [SendReadyMessage]\<rparr>"
    and l: "list_all listener_effect new" by (elim exE conjE)
  show "processing_incoming (ready st s)" by (subst r) simp
  have "effects (ready st s)
          = effects s @ registration st @ ProcessIncoming # new @ [SendReadyMessage]"
    by (subst r) simp
  moreover have "SendReadyMessage \<notin> set (registration st @ ProcessIncoming # new)"
    using listener_effects_kind [OF l] registration_kind [of st] by simp
  ultimately show "\<exists>new. effects (ready st s)
               = effects s @ registration st @ ProcessIncoming # new @ [SendReadyMessage]
             \<and> SendReadyMessage \<notin> set (registration st @ ProcessIncoming # new)"
    by (intro exI [of _ new] conjI)
next
  assume "processing_incoming s"
  then show "processing_incoming (step decodeObject s e)" by (rule step_processing_incoming)
next
  assume p: "processing_incoming s"
  then have "step decodeObject s (Receive msg)
      = foldl (\<lambda>s' h. run_handler h msg (emit (HandlerInvoked h msg) s')) s (handlers s)"
    by (simp add: receiveMessage_def dispatch_def)
  then show "\<exists>new rw tw.
            effects (step decodeObject s (Receive msg)) = effects s @ new
          \<and> record_waiters (step decodeObject s (Receive msg)) = record_waiters s @ rw
          \<and> table_waiters (step decodeObject s (Receive msg)) = table_waiters s @ tw
          \<and> (\<forall>h \<in> set (handlers s). HandlerInvoked h msg \<in> set new)
          \<and> (\<forall>cb. OptionsHandler cb \<in> set (handlers s) \<longrightarrow>
                 truthy (get_prop msg ''settings'') \<longrightarrow>
                 OptionsCallback cb
                   (if truthy (get_prop msg ''options'') then get_prop msg ''options''
                    else VNull)
                   (get_prop msg ''settings'') \<in> set new)
          \<and> (\<forall>cb. RecordHandler cb \<in> set (handlers s) \<longrightarrow>
                 truthy (get_prop msg ''tableId'') \<longrightarrow> truthy (get_prop msg ''rowId'') \<longrightarrow>
                 (\<exists>rid. FetchSelectedRecord rid (get_prop msg ''rowId'') \<in> set new
                        \<and> (rid, cb, msg) \<in> set rw))
          \<and> (\<forall>cb. RecordsHandler cb \<in> set (handlers s) \<longrightarrow>
                 truthy (get_prop msg ''tableId'') \<longrightarrow>
                 truthy (get_prop msg ''dataChange'') \<longrightarrow>
                 (\<exists>rid. FetchSelectedTable rid \<in> set new \<and> (rid, cb, msg) \<in> set tw))"
    using handlers_reach [of msg s "handlers s"] by simp
qed

text \<open>The theorem at a widget with one callback of each kind that has called
  \<^verbatim>\<open>ready()\<close>, and the notification
  \<^verbatim>\<open>{tableId: 'T', rowId: 3, dataChange: true, settings: {}}\<close>: the options callback is
  called, and the record and the table are requested for the other two.\<close>

theorem C3_ready_admits_messages_witness:
  "processing_incoming (run (\<lambda>v. v) initial [CallOnOptions 7, CallOnRecord 8, CallOnRecords 9])
   \<and> OptionsCallback 7 VNull (VObj [])
       \<in> set (effects (run (\<lambda>v. v) initial
                  [CallOnOptions 7, CallOnRecord 8, CallOnRecords 9, CallReady None,
                   Receive [(''tableId'', VStr ''T''), (''rowId'', VNum 3),
                            (''dataChange'', VBool True), (''settings'', VObj [])]]))
   \<and> (\<exists>rid. FetchSelectedRecord rid (VNum 3)
               \<in> set (effects (run (\<lambda>v. v) initial
                  [CallOnOptions 7, CallOnRecord 8, CallOnRecords 9, CallReady None,
                   Receive [(''tableId'', VStr ''T''), (''rowId'', VNum 3),
                            (''dataChange'', VBool True), (''settings'', VObj [])]]))
            \<and> (rid, 8, [(''tableId'', VStr ''T''), (''rowId'', VNum 3),
                         (''dataChange'', VBool True), (''settings'', VObj [])])
               \<in> set (record_waiters (run (\<lambda>v. v) initial
                  [CallOnOptions 7, CallOnRecord 8, CallOnRecords 9, CallReady None,
                   Receive [(''tableId'', VStr ''T''), (''rowId'', VNum 3),
                            (''dataChange'', VBool True), (''settings'', VObj [])]])))
   \<and> (\<exists>rid. FetchSelectedTable rid
               \<in> set (effects (run (\<lambda>v. v) initial
                  [CallOnOptions 7, CallOnRecord 8, CallOnRecords 9, CallReady None,
                   Receive [(''tableId'', VStr ''T''), (''rowId'', VNum 3),
                            (''dataChange'', VBool True), (''settings'', VObj [])]]))
            \<and> (rid, 9, [(''tableId'', VStr ''T''), (''rowId'', VNum 3),
                         (''dataChange'', VBool True), (''settings'', VObj [])])
               \<in> set (table_waiters (run (\<lambda>v. v) initial
                  [CallOnOptions 7, CallOnRecord 8, CallOnRecords 9, CallReady None,
                   Receive [(''tableId'', VStr ''T''), (''rowId'', VNum 3),
                            (''dataChange'', VBool True), (''settings'', VObj [])]])))"
proof -
  let ?msg = "[(''tableId'', VStr ''T''), (''rowId'', VNum 3),
               (''dataChange'', VBool True), (''settings'', VObj [])]"
  let ?s = "run (\<lambda>v. v) initial [CallOnOptions 7, CallOnRecord 8, CallOnRecords 9, CallReady None]"
  let ?s' = "step (\<lambda>v. v) ?s (Receive ?msg)"
  note T = C3_ready_admits_messages
             [where decodeObject = "\<lambda>v. v" and st = None and s = ?s and e = "Receive ?msg"
                and msg = ?msg and es = "[CallOnOptions 7, CallOnRecord 8, CallOnRecords 9]"]
  have ev: "?s = initial\<lparr>handlers := [OptionsHandler 7, RecordHandler 8, RecordsHandler 9],
                        ready_waiters := [None],
                        effects := [ProcessIncoming, SendReadyMessage]\<rparr>"
    by (simp add: run_def onOptions_def onRecord_def onRecords_def ready_def processIncoming_def
        emit_def initial_def)
  have p: "processing_incoming ?s" by (subst ev) (simp add: initial_def)
  have h: "handlers ?s = [OptionsHandler 7, RecordHandler 8, RecordsHandler 9]"
    by (subst ev) simp
  have g: "get_prop ?msg ''settings'' = VObj []" "get_prop ?msg ''options'' = VUndefined"
    "get_prop ?msg ''tableId'' = VStr ''T''" "get_prop ?msg ''rowId'' = VNum 3"
    "get_prop ?msg ''dataChange'' = VBool True"
    by (simp_all add: get_prop_def lookup_prop_def)
  from T have 1: "processing_incoming
      (run (\<lambda>v. v) initial [CallOnOptions 7, CallOnRecord 8, CallOnRecords 9])"
    by (rule conjunct1)
  note T5 = T [THEN conjunct2, THEN conjunct2, THEN conjunct2, THEN conjunct2, THEN mp, OF p]
  from T5 obtain new rw tw where
    e: "effects ?s' = effects ?s @ new"
    and r: "record_waiters ?s' = record_waiters ?s @ rw"
    and t: "table_waiters ?s' = table_waiters ?s @ tw"
    and o: "\<forall>cb. OptionsHandler cb \<in> set (handlers ?s) \<longrightarrow>
                 truthy (get_prop ?msg ''settings'') \<longrightarrow>
                 OptionsCallback cb
                   (if truthy (get_prop ?msg ''options'') then get_prop ?msg ''options''
                    else VNull)
                   (get_prop ?msg ''settings'') \<in> set new"
    and f: "\<forall>cb. RecordHandler cb \<in> set (handlers ?s) \<longrightarrow>
                 truthy (get_prop ?msg ''tableId'') \<longrightarrow> truthy (get_prop ?msg ''rowId'') \<longrightarrow>
                 (\<exists>rid. FetchSelectedRecord rid (get_prop ?msg ''rowId'') \<in> set new
                        \<and> (rid, cb, ?msg) \<in> set rw)"
    and k: "\<forall>cb. RecordsHandler cb \<in> set (handlers ?s) \<longrightarrow>
                 truthy (get_prop ?msg ''tableId'') \<longrightarrow>
                 truthy (get_prop ?msg ''dataChange'') \<longrightarrow>
                 (\<exists>rid. FetchSelectedTable rid \<in> set new \<and> (rid, cb, ?msg) \<in> set tw)"
    by (elim exE conjE)
  from o have "OptionsCallback 7 VNull (VObj []) \<in> set new" by (simp add: h g)
  then have 2: "OptionsCallback 7 VNull (VObj []) \<in> set (effects ?s')"
    by (subst e) simp
  from f obtain rid where f1: "FetchSelectedRecord rid (VNum 3) \<in> set new"
    and f2: "(rid, 8, ?msg) \<in> set rw" by (auto simp add: h g)
  have 3: "\<exists>rid. FetchSelectedRecord rid (VNum 3) \<in> set (effects ?s')
                        \<and> (rid, 8, ?msg) \<in> set (record_waiters ?s')"
  proof (rule exI [of _ rid], rule conjI)
    from f1 show "FetchSelectedRecord rid (VNum 3) \<in> set (effects ?s')" by (subst e) simp
    from f2 show "(rid, 8, ?msg) \<in> set (record_waiters ?s')" by (subst r) simp
  qed
  from k obtain rid' where k1: "FetchSelectedTable rid' \<in> set new"
    and k2: "(rid', 9, ?msg) \<in> set tw" by (auto simp add: h g)
  have 4: "\<exists>rid. FetchSelectedTable rid \<in> set (effects ?s')
                        \<and> (rid, 9, ?msg) \<in> set (table_waiters ?s')"
  proof (rule exI [of _ rid'], rule conjI)
    from k1 show "FetchSelectedTable rid' \<in> set (effects ?s')" by (subst e) simp
    from k2 show "(rid', 9, ?msg) \<in> set (table_waiters ?s')" by (subst t) simp
  qed
  have eq: "run (\<lambda>v. v) initial
                  [CallOnOptions 7, CallOnRecord 8, CallOnRecords 9, CallReady None, Receive ?msg]
            = ?s'"
    by (simp add: run_def)
  from 1 2 3 4 show ?thesis unfolding eq by (intro conjI)
qed

section \<open>The configuration push\<close>

lemma lookup_del_prop:
  "lookup_prop (del_prop obj k) k' = (if k' = k then None else lookup_prop obj k')"
  by (induction obj) (auto simp: lookup_prop_def del_prop_def)

lemma return_mappings_configure:
  "filter is_configure (effects (return_mappings c s)) = filter is_configure (effects s)"
  by (simp add: return_mappings_def emit_def split: cache_ref.splits option.splits prod.splits)

lemma resume_all_configure:
  "filter is_configure (effects (resume_all ws s)) = filter is_configure (effects s)"
  unfolding resume_all_def
  by (rule foldl_field [where g = "\<lambda>s. filter is_configure (effects s)"])
     (rule return_mappings_configure)

lemma step_configure:
  assumes "e \<noteq> ReadyMessageSent"
  shows "filter is_configure (effects (step decodeObject s e)) = filter is_configure (effects s)"
proof (cases e)
  case (CallReady st)
  from ready_frame [of st s] obtain rw tw n new where
    r: "ready st s =
       s\<lparr>processing_incoming := True, inactive_queue := [], record_waiters := rw,
         table_waiters := tw,
         ready_waiters := ready_waiters s @ [st], next_request := n,
         effects := effects s @ registration st @ ProcessIncoming # new @ [SendReadyMessage]\<rparr>"
    and l: "list_all listener_effect new" by blast
  from r CallReady listener_effects_kind [OF l] registration_kind [of st] show ?thesis by simp
next
  case (Receive msg)
  from dispatch_frame [of msg s] obtain rw tw n new where
    d: "dispatch msg s = s\<lparr>record_waiters := rw, table_waiters := tw, next_request := n, effects := effects s @ new\<rparr>"
    and l: "list_all listener_effect new" by blast
  from d Receive listener_effects_kind [OF l] show ?thesis by (simp add: receiveMessage_def)
next
  case (RecordFetched rid raw)
  then show ?thesis
    by (simp add: onRecord_resume_def getMappingsIfChanged_def return_mappings_configure
          emit_def Let_def split: option.splits)
next
  case (TableFetched rid raw)
  then show ?thesis
    by (simp add: onRecords_resume_def getMappingsIfChanged_def return_mappings_configure
          emit_def Let_def split: option.splits)
next
  case (MappingsResolved answer)
  then show ?thesis
    by (simp add: mappings_resolved_def resume_all_configure Let_def
             split: option.splits prod.splits)
next
  case MappingsRejected
  then show ?thesis by (simp add: mappings_rejected_eq)
qed (use assms in \<open>auto simp: onRecord_def onRecords_def onOptions_def emit_def
       configure_resolved_def configure_rejected_def split: list.splits option.splits\<close>)

text \<open>
  Claim C5 (configuration push, order and shape): when \<^verbatim>\<open>ready()\<close> is called with
  settings, \<^verbatim>\<open>configure\<close> is called only after the ready announcement completes; the
  payload is the settings without \<^verbatim>\<open>onEditOptions\<close> and with a boolean
  \<^verbatim>\<open>hasCustomOptions\<close> that is true exactly when the callback was supplied; and a
  supplied callback is registered as \<^verbatim>\<open>editOptions\<close> before the ready message is sent.

  The call \<open>ready (Some stg) s\<close> itself has no \<open>Configure\<close> effect: its effects are the
  registration, \<^verbatim>\<open>processIncoming\<close> with what the listeners do, and \<^verbatim>\<open>sendReadyMessage\<close>
  last. A supplied callback makes the registration the single effect
  \<open>RegisterFunc ''editOptions'' f\<close>. No event other than the completion of the ready
  message adds a \<open>Configure\<close> effect. When that completion arrives, the next effect is
  \<open>Configure (configure_options stg)\<close>, and \<open>configure_options stg\<close> has no
  \<^verbatim>\<open>onEditOptions\<close>, has \<^verbatim>\<open>hasCustomOptions\<close> as described, and agrees with the settings on
  every other property.
\<close>

theorem C5_configuration_push:
  "(\<exists>new. effects (ready (Some stg) s)
            = effects s @ registration (Some stg) @ ProcessIncoming # new @ [SendReadyMessage]
          \<and> filter is_configure
              (registration (Some stg) @ ProcessIncoming # new @ [SendReadyMessage]) = [])
   \<and> (\<forall>f. lookup_prop stg ''onEditOptions'' = Some f \<longrightarrow> truthy_setting (Some f) \<longrightarrow>
          registration (Some stg) = [RegisterFunc ''editOptions'' f])
   \<and> (e \<noteq> ReadyMessageSent \<longrightarrow>
        filter is_configure (effects (step decodeObject s e)) = filter is_configure (effects s))
   \<and> (ready_waiters s = [] \<longrightarrow>
        effects (step decodeObject (ready (Some stg) s) ReadyMessageSent)
          = effects (ready (Some stg) s) @ [Configure (configure_options stg)])
   \<and> lookup_prop (configure_options stg) ''onEditOptions'' = None
   \<and> lookup_prop (configure_options stg) ''hasCustomOptions''
       = Some (SBool (truthy_setting (lookup_prop stg ''onEditOptions'')))
   \<and> (\<forall>k. k \<noteq> ''onEditOptions'' \<longrightarrow> k \<noteq> ''hasCustomOptions'' \<longrightarrow>
          lookup_prop (configure_options stg) k = lookup_prop stg k)"
proof -
  from ready_frame [of "Some stg" s] obtain rw tw n new where
    r: "ready (Some stg) s =
       s\<lparr>processing_incoming := True, inactive_queue := [], record_waiters := rw,
         table_waiters := tw,
         ready_waiters := ready_waiters s @ [Some stg], next_request := n,
         effects := effects s @ registration (Some stg) @ ProcessIncoming # new
                      @ [SendReadyMessage]\<rparr>"
    and l: "list_all listener_effect new" by blast
  have e1: "effects (ready (Some stg) s)
            = effects s @ registration (Some stg) @ ProcessIncoming # new @ [SendReadyMessage]"
    by (subst r) simp
  have k1: "filter is_configure
              (registration (Some stg) @ ProcessIncoming # new @ [SendReadyMessage]) = []"
    using listener_effects_kind [OF l] registration_kind [of "Some stg"] by simp
  have 1: "\<exists>new. effects (ready (Some stg) s)
            = effects s @ registration (Some stg) @ ProcessIncoming # new @ [SendReadyMessage]
          \<and> filter is_configure
              (registration (Some stg) @ ProcessIncoming # new @ [SendReadyMessage]) = []"
    using e1 k1 by blast
  have 2: "\<forall>f. lookup_prop stg ''onEditOptions'' = Some f \<longrightarrow> truthy_setting (Some f) \<longrightarrow>
          registration (Some stg) = [RegisterFunc ''editOptions'' f]"
    by (simp add: registration_def)
  have 3: "e \<noteq> ReadyMessageSent \<longrightarrow>
        filter is_configure (effects (step decodeObject s e)) = filter is_configure (effects s)"
    by (simp add: step_configure)
  have 4: "ready_waiters s = [] \<longrightarrow>
        effects (step decodeObject (ready (Some stg) s) ReadyMessageSent)
          = effects (ready (Some stg) s) @ [Configure (configure_options stg)]"
  proof
    assume "ready_waiters s = []"
    then have "ready_waiters (ready (Some stg) s) = [Some stg]" by (subst r) simp
    then show "effects (step decodeObject (ready (Some stg) s) ReadyMessageSent)
          = effects (ready (Some stg) s) @ [Configure (configure_options stg)]"
      by (simp add: ready_resume_def emit_def Let_def)
  qed
  have 5: "lookup_prop (configure_options stg) ''onEditOptions'' = None"
    by (simp add: configure_options_def lookup_del_prop)
  have 6: "lookup_prop (configure_options stg) ''hasCustomOptions''
       = Some (SBool (truthy_setting (lookup_prop stg ''onEditOptions'')))"
    by (simp add: configure_options_def lookup_del_prop lookup_set_prop)
  have 7: "\<forall>k. k \<noteq> ''onEditOptions'' \<longrightarrow> k \<noteq> ''hasCustomOptions'' \<longrightarrow>
          lookup_prop (configure_options stg) k = lookup_prop stg k"
    by (simp add: configure_options_def lookup_del_prop lookup_set_prop)
  from 1 2 3 4 5 6 7 show ?thesis by blast
qed

text \<open>The theorem at \<^verbatim>\<open>ready({columns: ["Name"], onEditOptions: fn})\<close> in the initial state:
  the host sees the registration, the ready message and then
  \<^verbatim>\<open>configure({columns: ["Name"], hasCustomOptions: true})\<close>.\<close>

theorem C5_configuration_push_witness:
  "effects (step (\<lambda>v. v)
             (ready (Some [(''columns'', SColumns [ColName ''Name'']),
                           (''onEditOptions'', SFunc 3)]) initial)
             ReadyMessageSent)
     = [RegisterFunc ''editOptions'' (SFunc 3), ProcessIncoming, SendReadyMessage,
        Configure [(''columns'', SColumns [ColName ''Name'']),
                   (''hasCustomOptions'', SBool True)]]"
proof -
  let ?stg = "[(''columns'', SColumns [ColName ''Name'']), (''onEditOptions'', SFunc 3)]"
  have w: "ready_waiters initial = []" by (simp add: initial_def)
  have r: "effects (ready (Some ?stg) initial)
             = [RegisterFunc ''editOptions'' (SFunc 3), ProcessIncoming, SendReadyMessage]"
    by (simp add: ready_def lookup_prop_def processIncoming_def emit_def initial_def)
  have c: "configure_options ?stg
             = [(''columns'', SColumns [ColName ''Name'']), (''hasCustomOptions'', SBool True)]"
    by (simp add: configure_options_def lookup_prop_def del_prop_def)
  from C5_configuration_push [of ?stg initial ReadyMessageFailed "\<lambda>v. v"] w
  have "effects (step (\<lambda>v. v) (ready (Some ?stg) initial) ReadyMessageSent)
          = effects (ready (Some ?stg) initial) @ [Configure (configure_options ?stg)]"
    by blast
  with r c show ?thesis by simp
qed

text \<open>
  Claim C6 (configuration push failure containment): when the host rejects the
  \<^verbatim>\<open>configure\<close> call made inside \<^verbatim>\<open>ready()\<close>, the failure is caught and logged and not
  rethrown; \<^verbatim>\<open>ready()\<close> does not throw and the process is not crashed.

  A rejection that some call of \<^verbatim>\<open>ready\<close> waits for has one outcome, the effect
  \<open>ConsoleError err\<close>; nothing else of the state changes. For the whole sequence (the
  call of \<^verbatim>\<open>ready\<close> with settings, the completion of the ready message, the rejection)
  the effects are those of the call followed by \<open>Configure\<close> and \<open>ConsoleError err\<close>, no
  unhandled rejection is added, the gate is open, \<^verbatim>\<open>_columnsToMap\<close> holds the declared
  columns, and no call is left waiting.
\<close>

theorem C6_configure_failure_contained:
  "(configure_waiters s \<noteq> 0 \<longrightarrow>
      step decodeObject s (ConfigureRejected err)
        = s\<lparr>configure_waiters := configure_waiters s - 1,
            effects := effects s @ [ConsoleError err]\<rparr>)
   \<and> (ready_waiters s = [] \<longrightarrow>
        (\<exists>new. effects (run decodeObject s
                          [CallReady (Some stg), ReadyMessageSent, ConfigureRejected err])
                 = effects s @ registration (Some stg) @ ProcessIncoming # new
                     @ [SendReadyMessage, Configure (configure_options stg), ConsoleError err]
               \<and> list_all listener_effect new)
        \<and> filter is_rejection
            (effects (run decodeObject s
                        [CallReady (Some stg), ReadyMessageSent, ConfigureRejected err]))
            = filter is_rejection (effects s)
        \<and> processing_incoming
            (run decodeObject s [CallReady (Some stg), ReadyMessageSent, ConfigureRejected err])
        \<and> columnsToMap
            (run decodeObject s [CallReady (Some stg), ReadyMessageSent, ConfigureRejected err])
            = options_columns (configure_options stg)
        \<and> configure_waiters
            (run decodeObject s [CallReady (Some stg), ReadyMessageSent, ConfigureRejected err])
            = configure_waiters s)"
proof (intro conjI impI)
  assume "configure_waiters s \<noteq> 0"
  then show "step decodeObject s (ConfigureRejected err)
        = s\<lparr>configure_waiters := configure_waiters s - 1,
            effects := effects s @ [ConsoleError err]\<rparr>"
    by (simp add: configure_rejected_def emit_def)
next
  assume w: "ready_waiters s = []"
  let ?s3 = "run decodeObject s [CallReady (Some stg), ReadyMessageSent, ConfigureRejected err]"
  from ready_frame [of "Some stg" s] obtain rw tw n new where
    r: "ready (Some stg) s =
       s\<lparr>processing_incoming := True, inactive_queue := [], record_waiters := rw,
         table_waiters := tw,
         ready_waiters := ready_waiters s @ [Some stg], next_request := n,
         effects := effects s @ registration (Some stg) @ ProcessIncoming # new
                      @ [SendReadyMessage]\<rparr>"
    and l: "list_all listener_effect new" by blast
  have s3: "?s3 =
       s\<lparr>columnsToMap := options_columns (configure_options stg),
         processing_incoming := True, inactive_queue := [], record_waiters := rw,
         table_waiters := tw,
         ready_waiters := [], next_request := n,
         effects := effects s @ registration (Some stg) @ ProcessIncoming # new
                      @ [SendReadyMessage, Configure (configure_options stg), ConsoleError err]\<rparr>"
    using w
    by (simp add: run_def r ready_resume_def configure_rejected_def emit_def Let_def)
  have "effects ?s3 = effects s @ registration (Some stg) @ ProcessIncoming # new
                     @ [SendReadyMessage, Configure (configure_options stg), ConsoleError err]"
    by (subst s3) simp
  with l show "\<exists>new. effects ?s3
                 = effects s @ registration (Some stg) @ ProcessIncoming # new
                     @ [SendReadyMessage, Configure (configure_options stg), ConsoleError err]
               \<and> list_all listener_effect new"
    by blast
  show "filter is_rejection (effects ?s3) = filter is_rejection (effects s)"
    using listener_effects_kind [OF l] registration_kind [of "Some stg"]
    by (subst s3) simp
  show "processing_incoming ?s3" by (subst s3) simp
  show "columnsToMap ?s3 = options_columns (configure_options stg)" by (subst s3) simp
  show "configure_waiters ?s3 = configure_waiters s" by (subst s3) simp
qed

text \<open>The theorem at \<^verbatim>\<open>ready({columns: ["Name"]})\<close> in the initial state, with the
  rejection \<^verbatim>\<open>"denied"\<close>.\<close>

theorem C6_configure_failure_contained_witness:
  "effects (run (\<lambda>v. v) initial
              [CallReady (Some [(''columns'', SColumns [ColName ''Name''])]),
               ReadyMessageSent, ConfigureRejected (VStr ''denied'')])
     = [ProcessIncoming, SendReadyMessage,
        Configure [(''columns'', SColumns [ColName ''Name'']),
                   (''hasCustomOptions'', SBool False)],
        ConsoleError (VStr ''denied'')]
   \<and> processing_incoming (run (\<lambda>v. v) initial
              [CallReady (Some [(''columns'', SColumns [ColName ''Name''])]),
               ReadyMessageSent, ConfigureRejected (VStr ''denied'')])
   \<and> step (\<lambda>v. v) (initial\<lparr>configure_waiters := 1\<rparr>) (ConfigureRejected VNull)
       = initial\<lparr>configure_waiters := 0, effects := [ConsoleError VNull]\<rparr>"
proof -
  let ?stg = "[(''columns'', SColumns [ColName ''Name''])]"
  let ?es = "[CallReady (Some ?stg), ReadyMessageSent, ConfigureRejected (VStr ''denied'')]"
  have w: "ready_waiters initial = []" by (simp add: initial_def)
  have c: "configure_waiters (initial\<lparr>configure_waiters := 1\<rparr>) \<noteq> 0" by simp
  have ev: "effects (run (\<lambda>v. v) initial ?es)
     = [ProcessIncoming, SendReadyMessage,
        Configure [(''columns'', SColumns [ColName ''Name'']),
                   (''hasCustomOptions'', SBool False)],
        ConsoleError (VStr ''denied'')]"
    by (simp add: run_def ready_def lookup_prop_def processIncoming_def emit_def initial_def
          ready_resume_def configure_options_def del_prop_def configure_rejected_def Let_def)
  from C6_configure_failure_contained [of initial "\<lambda>v. v" "VStr ''denied''" ?stg] w
  have 1: "processing_incoming (run (\<lambda>v. v) initial ?es)" by blast
  from C6_configure_failure_contained
         [of "initial\<lparr>configure_waiters := 1\<rparr>" "\<lambda>v. v" VNull ?stg] c
  have 2: "step (\<lambda>v. v) (initial\<lparr>configure_waiters := 1\<rparr>) (ConfigureRejected VNull)
       = (initial\<lparr>configure_waiters := 1\<rparr>)
            \<lparr>configure_waiters := configure_waiters (initial\<lparr>configure_waiters := 1\<rparr>) - 1,
             effects := effects (initial\<lparr>configure_waiters := 1\<rparr>) @ [ConsoleError VNull]\<rparr>"
    by blast
  from ev 1 2 show ?thesis by (simp add: initial_def)
qed

section \<open>The record path\<close>

lemma deref_defined:
  assumes "deref h c \<noteq> MUndefined"
  shows "c = CNull \<or> (\<exists>a m. c = CRef a \<and> JSON_stringify h a = Some m)"
  using assms by (cases c) (auto simp: deref_def split: option.splits)

lemma return_mappings_callback:
  assumes "deref (heap s) (mappingsCache s) \<noteq> MUndefined"
  shows "map (callback_of (heap (return_mappings c s)))
           (drop (length (effects s)) (effects (return_mappings c s)))
         = [Some (c, deref (heap s) (mappingsCache s))]"
  using deref_defined [OF assms]
proof
  assume n: "mappingsCache s = CNull"
  then have "return_mappings c s
               = s\<lparr>effects := effects s @ [Callback c RNull]\<rparr>"
    by (simp add: return_mappings_null)
  with n show ?thesis by (simp add: ret_value_def deref_def)
next
  assume "\<exists>a m. mappingsCache s = CRef a \<and> JSON_stringify (heap s) a = Some m"
  then obtain a m where c: "mappingsCache s = CRef a" and j: "JSON_stringify (heap s) a = Some m"
    by blast
  from return_mappings_ref [OF c j, of c] obtain ext a' where
    r: "return_mappings c s =
          s\<lparr>heap := heap s @ ext,
            effects := effects s @ [Callback c (RRef a')]\<rparr>"
    and j': "JSON_stringify (heap s @ ext) a' = Some m" by blast
  have "effects (return_mappings c s)
          = effects s @ [Callback c (RRef a')]" by (subst r) simp
  moreover have "heap (return_mappings c s) = heap s @ ext" by (subst r) simp
  ultimately show ?thesis using c j j' by (simp add: ret_value_ref deref_def)
qed

text \<open>
  The claim C4 as stated says that the callback of \<^verbatim>\<open>onRecord\<close> receives the fetched
  record projected through the current mapping and declaration. The listener calls
  \<^verbatim>\<open>callback(rec, await getMappingsIfChanged(msg))\<close> and never calls \<^verbatim>\<open>mapColumnNames\<close>.
  In the run below the widget declares the column \<^verbatim>\<open>A\<close>, the host maps it to \<^verbatim>\<open>colX\<close>, and
  the record \<^verbatim>\<open>{id: 1, colX: 5}\<close> is fetched: the callback receives that record, and its
  projection with the default options of that state is \<^verbatim>\<open>{id: 1, A: 5}\<close>.
\<close>

theorem C4_record_not_projected:
  "effects (run (\<lambda>v. v) initial
     [CallOnRecord 7, CallReady (Some [(''columns'', SColumns [ColName ''A''])]),
      ReadyMessageSent, ConfigureResolved,
      Receive [(''tableId'', VStr ''T''), (''rowId'', VNum 1)],
      RecordFetched 0 [(''id'', VNum 1), (''colX'', VNum 5)],
      MappingsResolved (Some [(''A'', GCol ''colX'')])])
   = [ProcessIncoming, SendReadyMessage,
      Configure [(''columns'', SColumns [ColName ''A'']), (''hasCustomOptions'', SBool False)],
      HandlerInvoked (RecordHandler 7) [(''tableId'', VStr ''T''), (''rowId'', VNum 1)],
      FetchSelectedRecord 0 (VNum 1), Mappings,
      Callback (RecordCaller 7 [(''id'', VNum 1), (''colX'', VNum 5)]) (RRef 1)]
   \<and> mapColumnNames (Record [(''id'', VNum 1), (''colX'', VNum 5)])
       (default_options (run (\<lambda>v. v) initial
         [CallOnRecord 7, CallReady (Some [(''columns'', SColumns [ColName ''A''])]),
          ReadyMessageSent, ConfigureResolved,
          Receive [(''tableId'', VStr ''T''), (''rowId'', VNum 1)],
          RecordFetched 0 [(''id'', VNum 1), (''colX'', VNum 5)],
          MappingsResolved (Some [(''A'', GCol ''colX'')])]))
     = Some (Record [(''id'', VNum 1), (''A'', VNum 5)])
   \<and> Record [(''id'', VNum 1), (''A'', VNum 5)] \<noteq> Record [(''id'', VNum 1), (''colX'', VNum 5)]"
proof -
  let ?msg = "[(''tableId'', VStr ''T''), (''rowId'', VNum 1)]"
  let ?rec = "[(''id'', VNum 1), (''colX'', VNum 5)]"
  let ?cfg = "[(''columns'', SColumns [ColName ''A'']), (''hasCustomOptions'', SBool False)]"
  let ?s4 = "run (\<lambda>v. v) initial
     [CallOnRecord 7, CallReady (Some [(''columns'', SColumns [ColName ''A''])]),
      ReadyMessageSent, ConfigureResolved]"
  let ?s6 = "step (\<lambda>v. v) (step (\<lambda>v. v) ?s4 (Receive ?msg)) (RecordFetched 0 ?rec)"
  let ?s7 = "step (\<lambda>v. v) ?s6 (MappingsResolved (Some [(''A'', GCol ''colX'')]))"
  have s4: "?s4 = initial\<lparr>columnsToMap := Some [ColName ''A''], processing_incoming := True,
                         handlers := [RecordHandler 7],
                         effects := [ProcessIncoming, SendReadyMessage, Configure ?cfg]\<rparr>"
    by (simp add: run_def onRecord_def ready_def lookup_prop_def processIncoming_def emit_def
          initial_def ready_resume_def configure_options_def del_prop_def options_columns_def
          configure_resolved_def Let_def)
  have s6: "?s6 = initial\<lparr>activeRefreshReq := True,
                         columnsToMap := Some [ColName ''A''], processing_incoming := True,
                         handlers := [RecordHandler 7], refresh_waiters := [RecordCaller 7 ?rec],
                         mappings_in_flight := 1, next_request := 1,
                         effects := [ProcessIncoming, SendReadyMessage, Configure ?cfg,
                                     HandlerInvoked (RecordHandler 7) ?msg,
                                     FetchSelectedRecord 0 (VNum 1), Mappings]\<rparr>"
    by (subst s4)
       (simp add: receiveMessage_def dispatch_def onRecord_listener_def get_prop_def
          lookup_prop_def emit_def initial_def waiter_of_def drop_waiter_def onRecord_resume_def
          mapValues_def getMappingsIfChanged_def)
  have s7: "?s7 = initial\<lparr>mappingsCache := CRef 0,
                         columnsToMap := Some [ColName ''A''],
                         heap := [ObjCell [(''A'', SStr ''colX'')], ObjCell [(''A'', SStr ''colX'')]],
                         processing_incoming := True,
                         handlers := [RecordHandler 7], next_request := 1,
                         effects := [ProcessIncoming, SendReadyMessage, Configure ?cfg,
                                     HandlerInvoked (RecordHandler 7) ?msg,
                                     FetchSelectedRecord 0 (VNum 1), Mappings,
                                     Callback (RecordCaller 7 ?rec) (RRef 1)]\<rparr>"
    by (subst s6)
       (simp add: mappings_resolved_def JSON_parse_def resume_all_def return_mappings_def
          JSON_stringify_def cell_at_def emit_def initial_def)
  have r: "run (\<lambda>v. v) initial
     [CallOnRecord 7, CallReady (Some [(''columns'', SColumns [ColName ''A''])]),
      ReadyMessageSent, ConfigureResolved, Receive ?msg, RecordFetched 0 ?rec,
      MappingsResolved (Some [(''A'', GCol ''colX'')])] = ?s7"
    by (simp add: run_def)
  have e: "effects ?s7 = [ProcessIncoming, SendReadyMessage, Configure ?cfg,
                          HandlerInvoked (RecordHandler 7) ?msg,
                          FetchSelectedRecord 0 (VNum 1), Mappings,
                          Callback (RecordCaller 7 ?rec) (RRef 1)]"
    by (subst s7) simp
  have d: "default_options ?s7
             = \<lparr>columns = Some [ColName ''A''], mappings = MObj [(''A'', GCol ''colX'')]\<rparr>"
    by (subst s7) (simp add: default_options_def deref_def JSON_stringify_def cell_at_def)
  have m: "mapColumnNames (Record ?rec)
             \<lparr>columns = Some [ColName ''A''], mappings = MObj [(''A'', GCol ''colX'')]\<rparr>
           = Some (Record [(''id'', VNum 1), (''A'', VNum 5)])"
    by (simp add: mapColumnNames_def convert_def get_prop_def lookup_prop_def)
  from e d m show ?thesis unfolding r by simp
qed

text \<open>
  Claim C4, amended (record path): for every notification with a truthy \<^verbatim>\<open>tableId\<close> and a
  truthy \<^verbatim>\<open>rowId\<close>, the listener of \<^verbatim>\<open>onRecord\<close> fetches the selected record, and the
  callback is called with the fetched, decoded record as it is (not projected) as its
  first argument and with a copy of the mapping, or \<^verbatim>\<open>null\<close>, as its second.

  The listener asks for the record and suspends; the host's answer resumes it. When no
  refresh is needed, the callback is called in the same turn with the decoded record
  and the value of the cache. When a refresh is needed, the listener waits with the
  decoded record and nothing reaches the widget; when the host answers
  \<^verbatim>\<open>mappings()\<close>, every waiting callback is called with its record and the answer.
\<close>

theorem C4_record_path_unprojected:
  "(truthy (get_prop msg ''tableId'') \<and> truthy (get_prop msg ''rowId'') \<longrightarrow>
      onRecord_listener callback msg s
        = s\<lparr>record_waiters := record_waiters s @ [(next_request s, callback, msg)],
            next_request := next_request s + 1,
            effects := effects s @ [FetchSelectedRecord (next_request s) (get_prop msg ''rowId'')]\<rparr>)
   \<and> (waiter_of rid (record_waiters s) = Some (rid, callback, msg) \<longrightarrow>
        step decodeObject s (RecordFetched rid raw)
          = onRecord_resume decodeObject callback msg raw
              (s\<lparr>record_waiters := drop_waiter rid (record_waiters s)\<rparr>))
   \<and> (\<not> truthy (get_prop msg ''mappingsChange'') \<longrightarrow>
        deref (heap s) (mappingsCache s) \<noteq> MUndefined \<longrightarrow>
        map (callback_of (heap (onRecord_resume decodeObject callback msg raw s)))
          (drop (length (effects s)) (effects (onRecord_resume decodeObject callback msg raw s)))
        = [Some (RecordCaller callback (mapValues raw decodeObject),
                 deref (heap s) (mappingsCache s))])
   \<and> (truthy (get_prop msg ''mappingsChange'') \<or> mappingsCache s = CUndefined \<longrightarrow>
        refresh_waiters (onRecord_resume decodeObject callback msg raw s)
          = refresh_waiters s @ [RecordCaller callback (mapValues raw decodeObject)]
        \<and> filter reaches_widget
            (drop (length (effects s)) (effects (onRecord_resume decodeObject callback msg raw s)))
          = [])
   \<and> map (callback_of (heap (mappings_resolved answer s)))
         (drop (length (effects s)) (effects (mappings_resolved answer s)))
       = map (\<lambda>c. Some (c, answer_value answer)) (refresh_waiters s)"
proof (intro conjI impI)
  assume "truthy (get_prop msg ''tableId'') \<and> truthy (get_prop msg ''rowId'')"
  then show "onRecord_listener callback msg s
        = s\<lparr>record_waiters := record_waiters s @ [(next_request s, callback, msg)],
            next_request := next_request s + 1,
            effects := effects s @ [FetchSelectedRecord (next_request s) (get_prop msg ''rowId'')]\<rparr>"
    by (simp add: onRecord_listener_def emit_def)
next
  assume "waiter_of rid (record_waiters s) = Some (rid, callback, msg)"
  then show "step decodeObject s (RecordFetched rid raw)
          = onRecord_resume decodeObject callback msg raw
              (s\<lparr>record_waiters := drop_waiter rid (record_waiters s)\<rparr>)"
    by simp
next
  assume f: "\<not> truthy (get_prop msg ''mappingsChange'')"
    and d: "deref (heap s) (mappingsCache s) \<noteq> MUndefined"
  from d have "mappingsCache s \<noteq> CUndefined" by (auto simp: deref_def)
  with f have "onRecord_resume decodeObject callback msg raw s
                 = return_mappings (RecordCaller callback (mapValues raw decodeObject)) s"
    by (simp add: onRecord_resume_def getMappingsIfChanged_cached)
  with return_mappings_callback [OF d, of "RecordCaller callback (mapValues raw decodeObject)"]
  show "map (callback_of (heap (onRecord_resume decodeObject callback msg raw s)))
          (drop (length (effects s)) (effects (onRecord_resume decodeObject callback msg raw s)))
        = [Some (RecordCaller callback (mapValues raw decodeObject),
                 deref (heap s) (mappingsCache s))]"
    by simp
next
  assume n: "truthy (get_prop msg ''mappingsChange'') \<or> mappingsCache s = CUndefined"
  then show "refresh_waiters (onRecord_resume decodeObject callback msg raw s)
          = refresh_waiters s @ [RecordCaller callback (mapValues raw decodeObject)]"
    by (auto simp: onRecord_resume_def getMappingsIfChanged_def emit_def Let_def)
  from n show "filter reaches_widget
            (drop (length (effects s)) (effects (onRecord_resume decodeObject callback msg raw s)))
          = []"
    by (auto simp: onRecord_resume_def getMappingsIfChanged_def emit_def Let_def)
next
  from mappings_resolved_callbacks [of answer s] obtain new where
    "effects (mappings_resolved answer s) = effects s @ new"
    and "map (callback_of (heap (mappings_resolved answer s))) new
           = map (\<lambda>c. Some (c, answer_value answer)) (refresh_waiters s)"
    by blast
  then show "map (callback_of (heap (mappings_resolved answer s)))
         (drop (length (effects s)) (effects (mappings_resolved answer s)))
       = map (\<lambda>c. Some (c, answer_value answer)) (refresh_waiters s)"
    by simp
qed

text \<open>The theorem at the notification \<^verbatim>\<open>{tableId: "T", rowId: 1}\<close> and the record
  \<^verbatim>\<open>{id: 1, colX: 5}\<close>, with the cache holding \<^verbatim>\<open>{A: "colX"}\<close> and with the cache never
  populated.\<close>

theorem C4_record_path_unprojected_witness:
  "effects (onRecord_listener 7 [(''tableId'', VStr ''T''), (''rowId'', VNum 1)] initial)
     = [FetchSelectedRecord 0 (VNum 1)]
   \<and> map (callback_of
            (heap (onRecord_resume (\<lambda>v. v) 7 [(''tableId'', VStr ''T''), (''rowId'', VNum 1)]
                     [(''id'', VNum 1), (''colX'', VNum 5)]
                     (initial\<lparr>heap := [ObjCell [(''A'', SStr ''colX'')]],
                              mappingsCache := CRef 0\<rparr>))))
        (effects (onRecord_resume (\<lambda>v. v) 7 [(''tableId'', VStr ''T''), (''rowId'', VNum 1)]
                     [(''id'', VNum 1), (''colX'', VNum 5)]
                     (initial\<lparr>heap := [ObjCell [(''A'', SStr ''colX'')]],
                              mappingsCache := CRef 0\<rparr>)))
     = [Some (RecordCaller 7 [(''id'', VNum 1), (''colX'', VNum 5)], MObj [(''A'', GCol ''colX'')])]
   \<and> refresh_waiters
        (onRecord_resume (\<lambda>v. v) 7 [(''tableId'', VStr ''T''), (''rowId'', VNum 1)]
           [(''id'', VNum 1), (''colX'', VNum 5)] initial)
     = [RecordCaller 7 [(''id'', VNum 1), (''colX'', VNum 5)]]"
proof -
  let ?msg = "[(''tableId'', VStr ''T''), (''rowId'', VNum 1)]"
  let ?rec = "[(''id'', VNum 1), (''colX'', VNum 5)]"
  let ?sc = "initial\<lparr>heap := [ObjCell [(''A'', SStr ''colX'')]], mappingsCache := CRef 0\<rparr>"
  have t: "truthy (get_prop ?msg ''tableId'') \<and> truthy (get_prop ?msg ''rowId'')"
    by (simp add: get_prop_def lookup_prop_def)
  have f: "\<not> truthy (get_prop ?msg ''mappingsChange'')"
    by (simp add: get_prop_def lookup_prop_def)
  have d: "deref (heap ?sc) (mappingsCache ?sc) = MObj [(''A'', GCol ''colX'')]"
    by (simp add: deref_def JSON_stringify_def cell_at_def)
  then have d': "deref (heap ?sc) (mappingsCache ?sc) \<noteq> MUndefined" by simp
  have u: "truthy (get_prop ?msg ''mappingsChange'') \<or> mappingsCache initial = CUndefined"
    by (simp add: initial_def)
  have mv: "mapValues ?rec (\<lambda>v. v) = ?rec" by (simp add: mapValues_def)
  from C4_record_path_unprojected [of ?msg 7 initial 0 "\<lambda>v. v" ?rec None] t
  have 1: "onRecord_listener 7 ?msg initial
        = initial\<lparr>record_waiters := record_waiters initial @ [(next_request initial, 7, ?msg)],
            next_request := next_request initial + 1,
            effects := effects initial
                         @ [FetchSelectedRecord (next_request initial) (get_prop ?msg ''rowId'')]\<rparr>"
    by blast
  from C4_record_path_unprojected [of ?msg 7 ?sc 0 "\<lambda>v. v" ?rec None] f d'
  have 2: "map (callback_of (heap (onRecord_resume (\<lambda>v. v) 7 ?msg ?rec ?sc)))
          (drop (length (effects ?sc)) (effects (onRecord_resume (\<lambda>v. v) 7 ?msg ?rec ?sc)))
        = [Some (RecordCaller 7 (mapValues ?rec (\<lambda>v. v)), deref (heap ?sc) (mappingsCache ?sc))]"
    by blast
  from C4_record_path_unprojected [of ?msg 7 initial 0 "\<lambda>v. v" ?rec None] u
  have 3: "refresh_waiters (onRecord_resume (\<lambda>v. v) 7 ?msg ?rec initial)
          = refresh_waiters initial @ [RecordCaller 7 (mapValues ?rec (\<lambda>v. v))]"
    by blast
  have e0: "effects ?sc = []" by (simp add: initial_def)
  have a: "effects (onRecord_listener 7 ?msg initial) = [FetchSelectedRecord 0 (VNum 1)]"
    by (subst 1) (simp add: initial_def get_prop_def lookup_prop_def)
  have b: "map (callback_of (heap (onRecord_resume (\<lambda>v. v) 7 ?msg ?rec ?sc)))
          (effects (onRecord_resume (\<lambda>v. v) 7 ?msg ?rec ?sc))
        = [Some (RecordCaller 7 ?rec, MObj [(''A'', GCol ''colX'')])]"
    using 2 unfolding e0 mv d by simp
  have c: "refresh_waiters (onRecord_resume (\<lambda>v. v) 7 ?msg ?rec initial) = [RecordCaller 7 ?rec]"
    using 3 unfolding mv by (simp add: initial_def)
  from a b c show ?thesis by blast
qed

end
